theory Spec2Isabelle
  imports Main "HOL-Library.Word"
begin

section \<open>The canonicalizer output buffer of url\_canon.h\<close>

text \<open>
  \<^verbatim>\<open>CanonOutputT<T>\<close> keeps a pointer \<^verbatim>\<open>buffer_\<close> to a block of \<^verbatim>\<open>buffer_len_\<close> cells of
  which the first \<^verbatim>\<open>cur_len_\<close> have been declared written. Both counters are C++ \<^verbatim>\<open>int\<close>s
  (the fields drop the trailing underscore of the source's names).
  The block is a list of cells; a cell that was allocated but never written holds an
  indeterminate value, which is \<open>None\<close> here.

  The C++ \<^verbatim>\<open>int\<close> is 32 bits wide. Its arithmetic is written on \<open>int\<close> with the
  two's-complement wrap-around spelled out by \<open>wrap32\<close> (signed overflow is undefined
  in C++; wrapping is what the usual compilers emit). Theorems about results carry the
  range hypotheses under which no operation wraps.
\<close>

definition INT_MAX :: int where
  "INT_MAX = 2 ^ 31 - 1"

definition wrap32 :: "int \<Rightarrow> int" where
  "wrap32 x = (x + 2 ^ 31) mod 2 ^ 32 - 2 ^ 31"

record 'a CanonOutputT =
  buffer :: "'a option list"
  buffer_len :: int
  cur_len :: int

text \<open>The constructor of the base class: no block (\<^verbatim>\<open>NULL\<close>), capacity 0, length 0.\<close>

definition CanonOutputT_ctor :: "'a CanonOutputT" where
  "CanonOutputT_ctor = \<lparr>buffer = [], buffer_len = 0, cur_len = 0\<rparr>"

text \<open>
  The constructor of \<^verbatim>\<open>RawCanonOutputT<T, fixed_capacity>\<close>: the block is the embedded
  array \<^verbatim>\<open>fixed_buffer_\<close>, whose cells are not initialised.
\<close>

definition RawCanonOutputT_ctor :: "int \<Rightarrow> 'a CanonOutputT" where
  "RawCanonOutputT_ctor fixed_capacity =
     (CanonOutputT_ctor :: 'a CanonOutputT)
       \<lparr>buffer := replicate (nat fixed_capacity) None, buffer_len := fixed_capacity\<rparr>"

text \<open>
  The accessors \<^verbatim>\<open>length()\<close> and \<^verbatim>\<open>capacity()\<close> (\<open>length\<close> is the length of a list in
  HOL, so the first is \<open>length_of\<close>).
\<close>

definition length_of :: "'a CanonOutputT \<Rightarrow> int" where
  "length_of s = cur_len s"

definition capacity :: "'a CanonOutputT \<Rightarrow> int" where
  "capacity s = buffer_len s"

text \<open>
  \<^verbatim>\<open>buffer_[i] = ch\<close>. A store outside the block is undefined behaviour in C++; the model
  leaves the block as it is there, and the invariant below keeps every store of the
  class inside the block.
\<close>

definition poke :: "'a option list \<Rightarrow> int \<Rightarrow> 'a \<Rightarrow> 'a option list" where
  "poke b i ch = (if 0 \<le> i \<and> i < int (length b) then b[nat i := Some ch] else b)"

text \<open>
  \<^verbatim>\<open>at(offset)\<close> reads a cell and \<^verbatim>\<open>set(offset, ch)\<close> writes one (\<open>set_at\<close>, since \<open>set\<close>
  is taken). The source asks for an offset in the valid range; outside the block
  \<open>at\<close> has nothing to read and gives \<open>None\<close>.
\<close>

definition at :: "'a CanonOutputT \<Rightarrow> int \<Rightarrow> 'a option" where
  "at s offset = (if 0 \<le> offset \<and> offset < int (length (buffer s))
                  then buffer s ! nat offset else None)"

definition set_at :: "int \<Rightarrow> 'a \<Rightarrow> 'a CanonOutputT \<Rightarrow> 'a CanonOutputT" where
  "set_at offset ch s = s\<lparr>buffer := poke (buffer s) offset ch\<rparr>"

text \<open>\<^verbatim>\<open>set_length(new_len) { cur_len_ = new_len; }\<close>: no check of any kind.\<close>

definition set_length :: "int \<Rightarrow> 'a CanonOutputT \<Rightarrow> 'a CanonOutputT" where
  "set_length new_len s = s\<lparr>cur_len := new_len\<rparr>"

text \<open>
  \<^verbatim>\<open>RawCanonOutputT::Resize(sz)\<close>: a fresh block of \<^verbatim>\<open>sz\<close> uninitialised cells, into which
  \<^verbatim>\<open>memcpy\<close> copies the first \<^verbatim>\<open>min(cur_len_, sz)\<close> cells of the old block. The allocation
  is taken to succeed and the release of the old block is not modelled.
\<close>

definition memcpy :: "'a list \<Rightarrow> 'a list \<Rightarrow> int \<Rightarrow> 'a list" where
  "memcpy dst src n =
     (let k = min (nat n) (min (length src) (length dst)) in take k src @ drop k dst)"

definition Resize :: "int \<Rightarrow> 'a CanonOutputT \<Rightarrow> 'a CanonOutputT" where
  "Resize sz s =
     (let new_buf = replicate (nat sz) None;
          new_buf = memcpy new_buf (buffer s) (if cur_len s < sz then cur_len s else sz)
      in s\<lparr>buffer := new_buf, buffer_len := sz\<rparr>)"

text \<open>
  The \<^verbatim>\<open>do ... while\<close> loop of \<^verbatim>\<open>Grow\<close>, entered with \<^verbatim>\<open>new_len = buffer_len_\<close>
  (\<open>blen\<close> is the value of \<^verbatim>\<open>buffer_len_\<close>, which the loop does not change). It yields
  \<open>Some None\<close> where the source returns \<^verbatim>\<open>false\<close>, \<open>Some (Some n)\<close> where it leaves the
  loop with \<^verbatim>\<open>new_len = n\<close>, and \<open>None\<close> where it never leaves the loop.
\<close>

partial_function (option) Grow_loop :: "int \<Rightarrow> int \<Rightarrow> int \<Rightarrow> int option option" where
  "Grow_loop blen min_additional new_len =
     (if new_len \<ge> 2 ^ 30 then Some None
      else let new_len' = wrap32 (new_len * 2) in
        if new_len' < wrap32 (blen + min_additional)
        then Grow_loop blen min_additional new_len'
        else Some (Some new_len'))"

declare Grow_loop.simps [code]

text \<open>
  \<^verbatim>\<open>Grow(min_additional)\<close>. \<^verbatim>\<open>Resize\<close> is virtual, so the model takes the implementation
  of the derived class as the parameter \<open>resize\<close>. The result is the returned flag with the
  state after the call, or \<open>None\<close> when the call does not return.
\<close>

definition Grow ::
  "(int \<Rightarrow> 'a CanonOutputT \<Rightarrow> 'a CanonOutputT) \<Rightarrow> int \<Rightarrow> 'a CanonOutputT
     \<Rightarrow> (bool \<times> 'a CanonOutputT) option" where
  "Grow resize min_additional s =
     (case Grow_loop (buffer_len s) min_additional (buffer_len s) of
        None \<Rightarrow> None
      | Some None \<Rightarrow> Some (False, s)
      | Some (Some new_len) \<Rightarrow> Some (True, resize new_len s))"

text \<open>\<^verbatim>\<open>buffer_[cur_len_] = ch; cur_len_++;\<close>\<close>

definition insert_at_end :: "'a \<Rightarrow> 'a CanonOutputT \<Rightarrow> 'a CanonOutputT" where
  "insert_at_end ch s =
     s\<lparr>buffer := poke (buffer s) (cur_len s) ch, cur_len := wrap32 (cur_len s + 1)\<rparr>"

definition push_back ::
  "(int \<Rightarrow> 'a CanonOutputT \<Rightarrow> 'a CanonOutputT) \<Rightarrow> 'a \<Rightarrow> 'a CanonOutputT
     \<Rightarrow> 'a CanonOutputT option" where
  "push_back resize ch s =
     (if cur_len s < buffer_len s then Some (insert_at_end ch s)
      else case Grow resize 1 s of
        None \<Rightarrow> None
      | Some (False, s') \<Rightarrow> Some s'
      | Some (True, s') \<Rightarrow> Some (insert_at_end ch s'))"

text \<open>
  The copying loop of \<^verbatim>\<open>Append\<close>:
  \<^verbatim>\<open>for (int i = 0; i < str_len; i++) buffer_[cur_len_ + i] = str[i];\<close>
  The source string is the list \<open>str\<close>; a read past its end is undefined behaviour in
  C++ and copies nothing here.
\<close>

function Append_loop :: "'a list \<Rightarrow> int \<Rightarrow> int \<Rightarrow> 'a CanonOutputT \<Rightarrow> 'a CanonOutputT" where
  "Append_loop str str_len i s =
     (if i < str_len
      then Append_loop str str_len (i + 1)
             (if 0 \<le> i \<and> nat i < length str
              then s\<lparr>buffer := poke (buffer s) (wrap32 (cur_len s + i)) (str ! nat i)\<rparr>
              else s)
      else s)"
  by pat_completeness auto
termination
  by (relation "measure (\<lambda>(str, str_len, i, s). nat (str_len - i))") auto

declare Append_loop.simps [simp del]

definition Append ::
  "(int \<Rightarrow> 'a CanonOutputT \<Rightarrow> 'a CanonOutputT) \<Rightarrow> 'a list \<Rightarrow> int \<Rightarrow> 'a CanonOutputT
     \<Rightarrow> 'a CanonOutputT option" where
  "Append resize str str_len s =
     (let copy = (\<lambda>s. let s' = Append_loop str str_len 0 s
                      in s'\<lparr>cur_len := wrap32 (cur_len s' + str_len)\<rparr>)
      in if wrap32 (cur_len s + str_len) > buffer_len s
         then case Grow resize (wrap32 (wrap32 (cur_len s + str_len) - buffer_len s)) s of
                None \<Rightarrow> None
              | Some (False, s') \<Rightarrow> Some s'
              | Some (True, s') \<Rightarrow> Some (copy s')
         else Some (copy s))"

text \<open>
  The invariant of the class: the block has \<^verbatim>\<open>buffer_len_\<close> cells and
  \<open>0 \<le> length \<le> capacity\<close>, within the range of \<^verbatim>\<open>int\<close>.
\<close>

definition buffer_inv :: "'a CanonOutputT \<Rightarrow> bool" where
  "buffer_inv s \<longleftrightarrow>
     int (length (buffer s)) = buffer_len s \<and>
     0 \<le> cur_len s \<and> cur_len s \<le> buffer_len s \<and> buffer_len s \<le> INT_MAX"

text \<open>
  The contract the base class states for \<^verbatim>\<open>Resize\<close>: for a size larger than
  \<^verbatim>\<open>buffer_len_\<close>, the new block has that size and the data up to \<^verbatim>\<open>cur_len_\<close> is copied
  over.
\<close>

definition resize_contract :: "(int \<Rightarrow> 'a CanonOutputT \<Rightarrow> 'a CanonOutputT) \<Rightarrow> bool" where
  "resize_contract resize \<longleftrightarrow>
     (\<forall>sz s. buffer_inv s \<and> buffer_len s < sz \<and> sz \<le> INT_MAX \<longrightarrow>
        buffer_len (resize sz s) = sz \<and>
        int (length (buffer (resize sz s))) = sz \<and>
        cur_len (resize sz s) = cur_len s \<and>
        take (nat (cur_len s)) (buffer (resize sz s)) = take (nat (cur_len s)) (buffer s))"

text \<open>Three buffers used as examples below.\<close>

definition two_chars :: "char CanonOutputT" where
  "two_chars = \<lparr>buffer = [Some CHR ''a'', Some CHR ''b''], buffer_len = 2, cur_len = 2\<rparr>"

definition at_the_cap :: "char CanonOutputT" where
  "at_the_cap = \<lparr>buffer = replicate (2 ^ 30) (Some CHR ''a''), buffer_len = 2 ^ 30, cur_len = 2 ^ 30\<rparr>"

definition externally_written :: "char CanonOutputT" where
  "externally_written =
     \<lparr>buffer = [Some CHR ''a'', Some CHR ''b'', Some CHR ''c'', Some CHR ''d'', Some CHR ''e'',
                None, None, None],
      buffer_len = 8, cur_len = 2\<rparr>"

section \<open>Components of a URL\<close>

text \<open>
  Modelled from the spec: \<^verbatim>\<open>url_parse::Component\<close> and \<^verbatim>\<open>url_parse::Parsed\<close> (url\_parse.h is
  not part of the source at hand). A component is an (offset, length) pair into a source
  string; the sentinel for an absent component is offset \<open>-1\<close> with length \<open>0\<close>, and a
  component that is present but empty has an offset of at least \<open>0\<close> and length \<open>0\<close>. A
  \<open>Parsed\<close> holds the eight components (the shape tag of the spec is left out: each
  function below is the one for its shape).
\<close>

record Component =
  comp_begin :: int
  comp_len :: int

definition absent_component :: Component where
  "absent_component = \<lparr>comp_begin = - 1, comp_len = 0\<rparr>"

definition is_present :: "Component \<Rightarrow> bool" where
  "is_present c \<longleftrightarrow> 0 \<le> comp_begin c"

definition is_nonempty :: "Component \<Rightarrow> bool" where
  "is_nonempty c \<longleftrightarrow> is_present c \<and> 0 < comp_len c"

definition component_chars :: "'a list \<Rightarrow> Component \<Rightarrow> 'a list" where
  "component_chars spec c =
     (if is_present c then take (nat (comp_len c)) (drop (nat (comp_begin c)) spec) else [])"

record Parsed =
  scheme :: Component
  username :: Component
  password :: Component
  host :: Component
  port :: Component
  path :: Component
  query :: Component
  ref :: Component

section \<open>UTF-8 and UTF-16\<close>

text \<open>
  Modelled from the spec: the reading of UTF-8 and UTF-16 input and the writing of UTF-8
  output that the query and fragment canonicalizers rely on (their implementation files
  are not part of the source at hand). Well-formedness follows the Unicode standard: a
  code point is a scalar value when it is no surrogate and at most \<open>0x10FFFF\<close>; the
  byte ranges are those of the standard's table of well-formed UTF-8 byte sequences. A
  reader returns the code point at the head of its input, or \<open>None\<close> where the input
  is ill-formed there, and the number of units it consumed; the spec does not say how
  many units an ill-formed position takes, and the model takes one.
\<close>

definition is_scalar :: "nat \<Rightarrow> bool" where
  "is_scalar cp \<longleftrightarrow> cp < 0xD800 \<or> (0xE000 \<le> cp \<and> cp \<le> 0x10FFFF)"

definition is_cont :: "nat \<Rightarrow> bool" where
  "is_cont b \<longleftrightarrow> 0x80 \<le> b \<and> b \<le> 0xBF"

definition second3 :: "nat \<Rightarrow> nat \<Rightarrow> bool" where
  "second3 b0 b1 \<longleftrightarrow>
     (if b0 = 0xE0 then 0xA0 \<le> b1 \<and> b1 \<le> 0xBF
      else if b0 = 0xED then 0x80 \<le> b1 \<and> b1 \<le> 0x9F
      else is_cont b1)"

definition second4 :: "nat \<Rightarrow> nat \<Rightarrow> bool" where
  "second4 b0 b1 \<longleftrightarrow>
     (if b0 = 0xF0 then 0x90 \<le> b1 \<and> b1 \<le> 0xBF
      else if b0 = 0xF4 then 0x80 \<le> b1 \<and> b1 \<le> 0x8F
      else is_cont b1)"

definition read_utf8 :: "nat list \<Rightarrow> nat option \<times> nat" where
  "read_utf8 bs =
     (case bs of
        [] \<Rightarrow> (None, 1)
      | b0 # r0 \<Rightarrow>
          if b0 < 0x80 then (Some b0, 1)
          else if 0xC2 \<le> b0 \<and> b0 \<le> 0xDF then
            (case r0 of
               b1 # _ \<Rightarrow>
                 if is_cont b1 then (Some ((b0 - 0xC0) * 64 + (b1 - 0x80)), 2) else (None, 1)
             | _ \<Rightarrow> (None, 1))
          else if 0xE0 \<le> b0 \<and> b0 \<le> 0xEF then
            (case r0 of
               b1 # b2 # _ \<Rightarrow>
                 if second3 b0 b1 \<and> is_cont b2
                 then (Some ((b0 - 0xE0) * 4096 + (b1 - 0x80) * 64 + (b2 - 0x80)), 3)
                 else (None, 1)
             | _ \<Rightarrow> (None, 1))
          else if 0xF0 \<le> b0 \<and> b0 \<le> 0xF4 then
            (case r0 of
               b1 # b2 # b3 # _ \<Rightarrow>
                 if second4 b0 b1 \<and> is_cont b2 \<and> is_cont b3
                 then (Some ((b0 - 0xF0) * 262144 + (b1 - 0x80) * 4096 + (b2 - 0x80) * 64
                             + (b3 - 0x80)), 4)
                 else (None, 1)
             | _ \<Rightarrow> (None, 1))
          else (None, 1))"

definition read_utf16 :: "16 word list \<Rightarrow> nat option \<times> nat" where
  "read_utf16 us =
     (case us of
        [] \<Rightarrow> (None, 1)
      | u # r0 \<Rightarrow>
          if unat u < 0xD800 \<or> 0xE000 \<le> unat u then (Some (unat u), 1)
          else if unat u < 0xDC00 then
            (case r0 of
               l # _ \<Rightarrow>
                 if 0xDC00 \<le> unat l \<and> unat l < 0xE000
                 then (Some (0x10000 + (unat u - 0xD800) * 1024 + (unat l - 0xDC00)), 2)
                 else (None, 1)
             | [] \<Rightarrow> (None, 1))
          else (None, 1))"

definition kUnicodeReplacementCharacter :: nat where
  "kUnicodeReplacementCharacter = 0xFFFD"

definition utf8_encode :: "nat \<Rightarrow> nat list" where
  "utf8_encode cp =
     (if cp < 0x80 then [cp]
      else if cp < 0x800 then [0xC0 + cp div 64, 0x80 + cp mod 64]
      else if cp < 0x10000 then
        [0xE0 + cp div 4096, 0x80 + (cp div 64) mod 64, 0x80 + cp mod 64]
      else [0xF0 + cp div 262144, 0x80 + (cp div 4096) mod 64,
            0x80 + (cp div 64) mod 64, 0x80 + cp mod 64])"

definition utf16_encode :: "nat \<Rightarrow> 16 word list" where
  "utf16_encode cp =
     (if cp < 0x10000 then [of_nat cp]
      else [of_nat (0xD800 + (cp - 0x10000) div 1024), of_nat (0xDC00 + (cp - 0x10000) mod 1024)])"

text \<open>
  Modelled from the spec: the UTF-8 validator that the spec runs over the output of the
  fragment canonicalizer. It accepts the concatenations of well-formed UTF-8 byte
  sequences of the Unicode standard.
\<close>

fun valid_utf8 :: "nat list \<Rightarrow> bool" where
  "valid_utf8 [] = True"
| "valid_utf8 (b0 # bs) =
     (if b0 < 0x80 then valid_utf8 bs
      else if 0xC2 \<le> b0 \<and> b0 \<le> 0xDF then
        (case bs of b1 # r \<Rightarrow> is_cont b1 \<and> valid_utf8 r | _ \<Rightarrow> False)
      else if 0xE0 \<le> b0 \<and> b0 \<le> 0xEF then
        (case bs of b1 # b2 # r \<Rightarrow> second3 b0 b1 \<and> is_cont b2 \<and> valid_utf8 r | _ \<Rightarrow> False)
      else if 0xF0 \<le> b0 \<and> b0 \<le> 0xF4 then
        (case bs of b1 # b2 # b3 # r \<Rightarrow>
           second4 b0 b1 \<and> is_cont b2 \<and> is_cont b3 \<and> valid_utf8 r | _ \<Rightarrow> False)
      else False)"

text \<open>
  Modelled from the spec: reading a whole input, position after position, each reader
  call consuming at least one unit.
\<close>

function decode_utf8 :: "nat list \<Rightarrow> nat option list" where
  "decode_utf8 bs =
     (if bs = [] then []
      else fst (read_utf8 bs) # decode_utf8 (drop (snd (read_utf8 bs)) bs))"
  by pat_completeness auto
termination
proof (relation "measure length")
  show "wf (measure length)" by simp
next
  fix bs :: "nat list"
  assume "bs \<noteq> []"
  moreover have "1 \<le> snd (read_utf8 bs)"
    unfolding read_utf8_def by (simp split: list.split)
  ultimately show "(drop (snd (read_utf8 bs)) bs, bs) \<in> measure length"
    by (cases bs) auto
qed

function decode_utf16 :: "16 word list \<Rightarrow> nat option list" where
  "decode_utf16 us =
     (if us = [] then []
      else fst (read_utf16 us) # decode_utf16 (drop (snd (read_utf16 us)) us))"
  by pat_completeness auto
termination
proof (relation "measure length")
  show "wf (measure length)" by simp
next
  fix us :: "16 word list"
  assume "us \<noteq> []"
  moreover have "1 \<le> snd (read_utf16 us)"
    unfolding read_utf16_def by (simp split: list.split)
  ultimately show "(drop (snd (read_utf16 us)) us, us) \<in> measure length"
    by (cases us) auto
qed

declare decode_utf8.simps [simp del] decode_utf16.simps [simp del]


text \<open>
  Modelled from the spec: the repair of ill-formed input. Each ill-formed position
  becomes U+FFFD; \<open>utf8_chars\<close> is the UTF-8 form of a code point as \<^verbatim>\<open>char\<close>s, and
  \<open>repair_to_utf8\<close> writes a sequence of read results as UTF-8.
\<close>

definition repaired :: "nat option \<Rightarrow> nat" where
  "repaired r = (case r of Some cp \<Rightarrow> cp | None \<Rightarrow> kUnicodeReplacementCharacter)"

definition utf8_chars :: "nat \<Rightarrow> string" where
  "utf8_chars cp = map char_of (utf8_encode cp)"

definition repair_to_utf8 :: "nat option list \<Rightarrow> string" where
  "repair_to_utf8 chars = concat (map (\<lambda>r. utf8_chars (repaired r)) chars)"

section \<open>The fragment and query canonicalizers\<close>

text \<open>
  The output buffer of a canonicalizer is represented in this part by its written
  characters, a \<open>string\<close>, to which a canonicalizer appends; a \<^verbatim>\<open>char\<close> is a byte. Growth
  of the buffer is the subject of the first part and plays no role here (the spec asks the
  caller to discard the buffer when growth fails).
\<close>

text \<open>
  Modelled from the spec: \<^verbatim>\<open>CanonicalizeRef\<close>, 8-bit version (declared in url\_canon.h, its
  implementation is not part of the source at hand). It prepends \<^verbatim>\<open>#\<close> if the component is
  not absent and writes the fragment as UTF-8, with the replacement character for each
  ill-formed position of the input and the rest copied; it returns false exactly when
  the input was ill-formed somewhere.
\<close>

definition CanonicalizeRef :: "string \<Rightarrow> Component \<Rightarrow> string \<Rightarrow> bool \<times> string \<times> Component" where
  "CanonicalizeRef spec ref_c output =
     (if \<not> is_present ref_c then (True, output, absent_component)
      else let chars = decode_utf8 (map of_char (component_chars spec ref_c));
               text = repair_to_utf8 chars
           in (list_all (\<lambda>r. r \<noteq> None) chars, output @ CHR ''#'' # text,
               \<lparr>comp_begin = int (length output) + 1, comp_len = int (length text)\<rparr>))"

text \<open>Modelled from the spec: \<^verbatim>\<open>CanonicalizeRef\<close>, wide version, whose input is UTF-16.\<close>

definition CanonicalizeRefW ::
  "16 word list \<Rightarrow> Component \<Rightarrow> string \<Rightarrow> bool \<times> string \<times> Component" where
  "CanonicalizeRefW spec ref_c output =
     (if \<not> is_present ref_c then (True, output, absent_component)
      else let chars = decode_utf16 (component_chars spec ref_c);
               text = repair_to_utf8 chars
           in (list_all (\<lambda>r. r \<noteq> None) chars, output @ CHR ''#'' # text,
               \<lparr>comp_begin = int (length output) + 1, comp_len = int (length text)\<rparr>))"

text \<open>
  The text a canonicalizer appended to \<open>output\<close>, given the output it returned (a notion
  of the claims, not a function of the source).
\<close>

definition appended :: "string \<Rightarrow> string \<Rightarrow> string" where
  "appended output output' = drop (length output) output'"

text \<open>
  What the claim says the fragment canonicalizer writes, in the claim's own words, to be
  compared with the canonicalizers above. For 8-bit input the text is walked position by
  position: a well-formed sequence is copied as it is, an ill-formed position gives the
  three bytes of U+FFFD. For a sequence of read results (as the wide version has them,
  where the input is UTF-16 and cannot be copied byte for byte) each code point is written
  in UTF-8 and each ill-formed position gives the three bytes of U+FFFD.
\<close>

function replace_invalid_copy_rest :: "string \<Rightarrow> string" where
  "replace_invalid_copy_rest cs =
     (if cs = [] then []
      else (case fst (read_utf8 (map of_char cs)) of
              Some cp \<Rightarrow> take (snd (read_utf8 (map of_char cs))) cs
            | None \<Rightarrow> [CHR 0xEF, CHR 0xBF, CHR 0xBD])
           @ replace_invalid_copy_rest (drop (snd (read_utf8 (map of_char cs))) cs))"
  by pat_completeness auto
termination
proof (relation "measure length")
  show "wf (measure length)" by simp
next
  fix cs :: string
  assume "cs \<noteq> []"
  moreover have "1 \<le> snd (read_utf8 (map of_char cs))"
    unfolding read_utf8_def by (simp split: list.split)
  ultimately show "(drop (snd (read_utf8 (map of_char cs))) cs, cs) \<in> measure length"
    by (cases cs) auto
qed

declare replace_invalid_copy_rest.simps [simp del]

definition transcode_or_replace :: "nat option list \<Rightarrow> string" where
  "transcode_or_replace rs =
     concat (map (\<lambda>r. case r of Some cp \<Rightarrow> utf8_chars cp
                           | None \<Rightarrow> [CHR 0xEF, CHR 0xBF, CHR 0xBD]) rs)"

text \<open>
  Modelled from the spec: \<^verbatim>\<open>CharsetConverter::ConvertFromUTF16\<close>, supplied by the embedder,
  is a function from the UTF-16 input to the text it appends; it has no failure result. A
  \<^verbatim>\<open>NULL\<close> converter is \<open>None\<close>.
\<close>

type_synonym CharsetConverter = "16 word list \<Rightarrow> string"

text \<open>Modelled from the spec: the percent-escape \<^verbatim>\<open>%XX\<close> of a byte, in upper-case hex.\<close>

definition hex_digit :: "nat \<Rightarrow> char" where
  "hex_digit n = ''0123456789ABCDEF'' ! (n mod 16)"

definition percent_escape :: "char \<Rightarrow> string" where
  "percent_escape c = [CHR ''%'', hex_digit (of_char c div 16), hex_digit (of_char c mod 16)]"

text \<open>
  Modelled from the spec: \<^verbatim>\<open>CanonicalizeQuery\<close> (declared in url\_canon.h with result type
  \<^verbatim>\<open>void\<close>; its implementation is not part of the source at hand). It prepends \<^verbatim>\<open>?\<close> if the
  component is not absent; ill-formed input is repaired with the replacement character;
  ASCII input needs no conversion, other input goes through the converter, or is written
  as UTF-8 when the converter is \<^verbatim>\<open>NULL\<close>; the result is escaped with the query escape set,
  which the spec does not list and which is the parameter \<open>query_escape\<close>. The first
  function is the sequence of code points after the repair.
\<close>

definition query_code_points :: "string \<Rightarrow> Component \<Rightarrow> nat list" where
  "query_code_points spec query_c = map repaired (decode_utf8 (map of_char (component_chars spec query_c)))"

definition query_code_pointsW :: "16 word list \<Rightarrow> Component \<Rightarrow> nat list" where
  "query_code_pointsW spec query_c = map repaired (decode_utf16 (component_chars spec query_c))"

definition convert_query :: "CharsetConverter option \<Rightarrow> nat list \<Rightarrow> string" where
  "convert_query converter cps =
     (if list_all (\<lambda>cp. cp < 0x80) cps then map char_of cps
      else case converter of
             None \<Rightarrow> concat (map utf8_chars cps)
           | Some convert \<Rightarrow> convert (concat (map utf16_encode cps)))"

definition escape_query :: "(char \<Rightarrow> bool) \<Rightarrow> string \<Rightarrow> string" where
  "escape_query query_escape s =
     concat (map (\<lambda>c. if query_escape c then percent_escape c else [c]) s)"

definition write_query ::
  "(char \<Rightarrow> bool) \<Rightarrow> CharsetConverter option \<Rightarrow> nat list \<Rightarrow> string \<Rightarrow> string \<times> Component" where
  "write_query query_escape converter cps output =
     (let text = escape_query query_escape (convert_query converter cps)
      in (output @ CHR ''?'' # text,
          \<lparr>comp_begin = int (length output) + 1, comp_len = int (length text)\<rparr>))"

definition CanonicalizeQuery ::
  "(char \<Rightarrow> bool) \<Rightarrow> string \<Rightarrow> Component \<Rightarrow> CharsetConverter option \<Rightarrow> string
     \<Rightarrow> string \<times> Component" where
  "CanonicalizeQuery query_escape spec query_c converter output =
     (if \<not> is_present query_c then (output, absent_component)
      else write_query query_escape converter (query_code_points spec query_c) output)"

definition CanonicalizeQueryW ::
  "(char \<Rightarrow> bool) \<Rightarrow> 16 word list \<Rightarrow> Component \<Rightarrow> CharsetConverter option \<Rightarrow> string
     \<Rightarrow> string \<times> Component" where
  "CanonicalizeQueryW query_escape spec query_c converter output =
     (if \<not> is_present query_c then (output, absent_component)
      else write_query query_escape converter (query_code_pointsW spec query_c) output)"

section \<open>Replacing components of an opaque-path URL\<close>

text \<open>
  \<^verbatim>\<open>URLComponentSource<char>\<close> is in the source: eight pointers, \<^verbatim>\<open>NULL\<close> (here \<open>None\<close>) for
  a component that is to stay as it is, and a string otherwise. The fields carry the
  prefix \<open>src\<close> to keep them apart from those of \<open>Parsed\<close>. The two constructors follow.
\<close>

record URLComponentSource =
  src_scheme :: "string option"
  src_username :: "string option"
  src_password :: "string option"
  src_host :: "string option"
  src_port :: "string option"
  src_path :: "string option"
  src_query :: "string option"
  src_ref :: "string option"

definition URLComponentSource_null :: URLComponentSource where
  "URLComponentSource_null =
     \<lparr>src_scheme = None, src_username = None, src_password = None, src_host = None,
      src_port = None, src_path = None, src_query = None, src_ref = None\<rparr>"

definition URLComponentSource_of :: "string \<Rightarrow> URLComponentSource" where
  "URLComponentSource_of default_value =
     \<lparr>src_scheme = Some default_value, src_username = Some default_value,
      src_password = Some default_value, src_host = Some default_value,
      src_port = Some default_value, src_path = Some default_value,
      src_query = Some default_value, src_ref = Some default_value\<rparr>"

text \<open>
  Modelled from the spec: the merge of a base URL with its overrides (the implementation
  of the replacers is not part of the source at hand). For each component the merged
  source is the override where there is one and the base otherwise. An override stands for
  the whole of its string; an empty override deletes the component, except for host and
  path, where it leaves a component that is present and empty.
\<close>

definition override_source :: "string \<Rightarrow> string option \<Rightarrow> string option" where
  "override_source base r = (case r of None \<Rightarrow> Some base | Some s \<Rightarrow> Some s)"

definition override_component :: "bool \<Rightarrow> Component \<Rightarrow> string option \<Rightarrow> Component" where
  "override_component keeps_empty c r =
     (case r of
        None \<Rightarrow> c
      | Some s \<Rightarrow>
          if s = [] \<and> \<not> keeps_empty then absent_component
          else \<lparr>comp_begin = 0, comp_len = int (length s)\<rparr>)"

definition SetupOverrideComponents ::
  "string \<Rightarrow> URLComponentSource \<Rightarrow> Parsed \<Rightarrow> URLComponentSource \<times> Parsed" where
  "SetupOverrideComponents base repl parsed =
     (\<lparr>src_scheme = override_source base (src_scheme repl),
       src_username = override_source base (src_username repl),
       src_password = override_source base (src_password repl),
       src_host = override_source base (src_host repl),
       src_port = override_source base (src_port repl),
       src_path = override_source base (src_path repl),
       src_query = override_source base (src_query repl),
       src_ref = override_source base (src_ref repl)\<rparr>,
      \<lparr>scheme = override_component False (scheme parsed) (src_scheme repl),
       username = override_component False (username parsed) (src_username repl),
       password = override_component False (password parsed) (src_password repl),
       host = override_component True (host parsed) (src_host repl),
       port = override_component False (port parsed) (src_port repl),
       path = override_component True (path parsed) (src_path repl),
       query = override_component False (query parsed) (src_query repl),
       ref = override_component False (ref parsed) (src_ref repl)\<rparr>)"

text \<open>
  Modelled from the spec: \<^verbatim>\<open>CanonicalizeScheme\<close>. It lower-cases the ASCII letters of the
  scheme, appends the scheme and a colon, and succeeds when the scheme is a letter followed
  by letters, digits, \<^verbatim>\<open>+\<close>, \<^verbatim>\<open>-\<close> or \<^verbatim>\<open>.\<close>; an empty or absent scheme gives the colon alone
  and failure. The output component is the scheme without the colon.
\<close>

definition is_letter :: "char \<Rightarrow> bool" where
  "is_letter c \<longleftrightarrow> (let n = (of_char c :: nat) in (65 \<le> n \<and> n \<le> 90) \<or> (97 \<le> n \<and> n \<le> 122))"

definition is_scheme_char :: "char \<Rightarrow> bool" where
  "is_scheme_char c \<longleftrightarrow>
     (let n = (of_char c :: nat) in is_letter c \<or> (48 \<le> n \<and> n \<le> 57) \<or> c \<in> set ''+-.'')"

definition to_lower :: "char \<Rightarrow> char" where
  "to_lower c = (let n = (of_char c :: nat) in if 65 \<le> n \<and> n \<le> 90 then char_of (n + 32) else c)"

definition CanonicalizeScheme :: "string \<Rightarrow> Component \<Rightarrow> string \<Rightarrow> bool \<times> string \<times> Component" where
  "CanonicalizeScheme spec scheme_c output =
     (let s = component_chars spec scheme_c; text = map to_lower s
      in ((case s of [] \<Rightarrow> False | c # cs \<Rightarrow> is_letter c \<and> list_all is_scheme_char cs),
          output @ text @ '':'',
          \<lparr>comp_begin = int (length output), comp_len = int (length text)\<rparr>))"

text \<open>
  Modelled from the spec: the assembler for opaque-path URLs, \<^verbatim>\<open>CanonicalizePathURL\<close>, over
  a source per component. Only the scheme and the path are written, the path as it is;
  every other component is ignored and absent in the new \<open>Parsed\<close>.
\<close>

definition source_string :: "string option \<Rightarrow> string" where
  "source_string p = (case p of None \<Rightarrow> [] | Some s \<Rightarrow> s)"

definition DoCanonicalizePathURL ::
  "URLComponentSource \<Rightarrow> Parsed \<Rightarrow> string \<Rightarrow> bool \<times> string \<times> Parsed" where
  "DoCanonicalizePathURL source parsed output =
     (case CanonicalizeScheme (source_string (src_scheme source)) (scheme parsed) output of
        (success, output1, out_scheme) \<Rightarrow>
          let path_text = component_chars (source_string (src_path source)) (path parsed);
              out_path = (if is_present (path parsed)
                          then \<lparr>comp_begin = int (length output1), comp_len = int (length path_text)\<rparr>
                          else absent_component)
          in (success, output1 @ path_text,
              \<lparr>scheme = out_scheme, username = absent_component, password = absent_component,
               host = absent_component, port = absent_component, path = out_path,
               query = absent_component, ref = absent_component\<rparr>))"

definition CanonicalizePathURL :: "string \<Rightarrow> Parsed \<Rightarrow> string \<Rightarrow> bool \<times> string \<times> Parsed" where
  "CanonicalizePathURL spec parsed output =
     DoCanonicalizePathURL (URLComponentSource_of spec) parsed output"

text \<open>
  Modelled from the spec: \<^verbatim>\<open>ReplacePathURL\<close>, which merges the base with the overrides and
  runs the assembler for opaque-path URLs over the merged source.
\<close>

definition ReplacePathURL ::
  "string \<Rightarrow> Parsed \<Rightarrow> URLComponentSource \<Rightarrow> string \<Rightarrow> bool \<times> string \<times> Parsed" where
  "ReplacePathURL base base_parsed replacements output =
     (case SetupOverrideComponents base replacements base_parsed of
        (source, parsed) \<Rightarrow> DoCanonicalizePathURL source parsed output)"

section \<open>Resolving a relative URL\<close>

text \<open>
  Modelled from the spec: \<^verbatim>\<open>ResolveRelativeURL\<close> (declared in url\_canon.h, its
  implementation is not part of the source at hand). The base must have a non-empty path
  and, unless it is a file URL, a host, which the header lets be empty for file URLs only;
  otherwise the base is returned as the output with the error flag. The merge of the
  relative part with a base that passes this check is the parameter \<open>resolve\<close>.
\<close>

definition ResolveRelativeURL ::
  "(string \<Rightarrow> Parsed \<Rightarrow> bool \<Rightarrow> 'r \<Rightarrow> Component \<Rightarrow> string \<Rightarrow> bool \<times> string \<times> Parsed)
     \<Rightarrow> string \<Rightarrow> Parsed \<Rightarrow> bool \<Rightarrow> 'r \<Rightarrow> Component \<Rightarrow> string \<Rightarrow> bool \<times> string \<times> Parsed" where
  "ResolveRelativeURL resolve base_url base_parsed base_is_file relative_url relative_component
       output =
     (if \<not> is_nonempty (path base_parsed) \<or>
         (\<not> base_is_file \<and> \<not> is_nonempty (host base_parsed))
      then (False, output @ base_url, base_parsed)
      else resolve base_url base_parsed base_is_file relative_url relative_component output)"

section \<open>Example inputs\<close>

text \<open>
  An escape set for the examples (controls, space and bytes from \<open>0x7F\<close> on), and three
  parsed base URLs: \<^verbatim>\<open>http://host\<close> with no path, \<^verbatim>\<open>data:/x\<close> with no host, and
  \<^verbatim>\<open>javascript:alert(1)\<close>.
\<close>

definition example_escape :: "char \<Rightarrow> bool" where
  "example_escape c \<longleftrightarrow> (of_char c :: nat) \<le> 0x20 \<or> 0x7F \<le> (of_char c :: nat)"

definition no_path_base :: Parsed where
  "no_path_base =
     \<lparr>scheme = \<lparr>comp_begin = 0, comp_len = 4\<rparr>, username = absent_component,
      password = absent_component, host = \<lparr>comp_begin = 7, comp_len = 4\<rparr>,
      port = absent_component, path = absent_component, query = absent_component,
      ref = absent_component\<rparr>"

definition no_host_base :: Parsed where
  "no_host_base =
     \<lparr>scheme = \<lparr>comp_begin = 0, comp_len = 4\<rparr>, username = absent_component,
      password = absent_component, host = absent_component,
      port = absent_component, path = \<lparr>comp_begin = 5, comp_len = 2\<rparr>, query = absent_component,
      ref = absent_component\<rparr>"

text \<open>A stand-in for the merge of \<^verbatim>\<open>ResolveRelativeURL\<close>, which the examples never reach.\<close>

definition keep_output ::
  "string \<Rightarrow> Parsed \<Rightarrow> bool \<Rightarrow> string \<Rightarrow> Component \<Rightarrow> string \<Rightarrow> bool \<times> string \<times> Parsed" where
  "keep_output base_url base_parsed base_is_file relative_url relative_component output =
     (True, output, base_parsed)"

definition javascript_parsed :: Parsed where
  "javascript_parsed =
     \<lparr>scheme = \<lparr>comp_begin = 0, comp_len = 10\<rparr>, username = absent_component,
      password = absent_component, host = absent_component, port = absent_component,
      path = \<lparr>comp_begin = 11, comp_len = 8\<rparr>, query = absent_component,
      ref = absent_component\<rparr>"

section \<open>Facts about the growth loop and the copying loop\<close>

lemma wrap32_id: "- (2 ^ 31) \<le> x \<Longrightarrow> x < 2 ^ 31 \<Longrightarrow> wrap32 x = x"
  by (simp add: wrap32_def)

lemma wrap32_double: "1 \<le> n \<Longrightarrow> n < 2 ^ 30 \<Longrightarrow> wrap32 (n * 2) = 2 * n"
  by (simp add: wrap32_id)

lemma Grow_loop_result:
  assumes "Grow_loop b a n = Some y"
  shows "1 \<le> n \<longrightarrow> (\<forall>m. y = Some m \<longrightarrow> 2 * n \<le> m \<and> m \<le> INT_MAX \<and> wrap32 (b + a) \<le> m)"
proof (rule Grow_loop.raw_induct
    [where P = "\<lambda>b a n y. 1 \<le> n \<longrightarrow>
        (\<forall>m. y = Some m \<longrightarrow> 2 * n \<le> m \<and> m \<le> INT_MAX \<and> wrap32 (b + a) \<le> m)", OF _ assms])
  fix f :: "int \<Rightarrow> int \<Rightarrow> int \<Rightarrow> int option option" and b a n y
  assume ih: "\<And>b a n y. f b a n = Some y \<Longrightarrow> 1 \<le> n \<longrightarrow>
        (\<forall>m. y = Some m \<longrightarrow> 2 * n \<le> m \<and> m \<le> INT_MAX \<and> wrap32 (b + a) \<le> m)"
    and body: "(if 2 ^ 30 \<le> n then Some None
         else let new_len' = wrap32 (n * 2)
              in if new_len' < wrap32 (b + a) then f b a new_len'
                 else Some (Some new_len')) = Some y"
  show "1 \<le> n \<longrightarrow> (\<forall>m. y = Some m \<longrightarrow> 2 * n \<le> m \<and> m \<le> INT_MAX \<and> wrap32 (b + a) \<le> m)"
  proof (intro impI allI)
    fix m assume n: "1 \<le> n" and y: "y = Some m"
    from body y have small: "n < 2 ^ 30" by (auto split: if_splits)
    with n have w: "wrap32 (n * 2) = 2 * n" by (rule wrap32_double)
    show "2 * n \<le> m \<and> m \<le> INT_MAX \<and> wrap32 (b + a) \<le> m"
    proof (cases "2 * n < wrap32 (b + a)")
      case True
      with body small w have "f b a (2 * n) = Some y" by (simp add: Let_def)
      from ih [OF this] n y have "2 * (2 * n) \<le> m \<and> m \<le> INT_MAX \<and> wrap32 (b + a) \<le> m" by simp
      with n show ?thesis by simp
    next
      case False
      with body small w y have "m = 2 * n" by (simp add: Let_def)
      with False small show ?thesis by (simp add: INT_MAX_def)
    qed
  qed
qed

lemma Grow_loop_returns:
  "1 \<le> n \<Longrightarrow> \<exists>r. Grow_loop b a n = Some r"
proof (induction "nat (2 ^ 30 - n)" arbitrary: n rule: less_induct)
  case less
  show ?case
  proof (cases "2 ^ 30 \<le> n")
    case True
    then show ?thesis by (subst Grow_loop.simps) simp
  next
    case False
    with less.prems have w: "wrap32 (n * 2) = 2 * n" by (simp add: wrap32_double)
    show ?thesis
    proof (cases "2 * n < wrap32 (b + a)")
      case True
      have "\<exists>r. Grow_loop b a (2 * n) = Some r"
        using less.prems False by (intro less.hyps) auto
      with True False w show ?thesis by (subst Grow_loop.simps) (simp add: Let_def)
    next
      case F2: False
      with False w show ?thesis by (subst Grow_loop.simps) (simp add: Let_def)
    qed
  qed
qed

lemma Grow_loop_zero_aux:
  assumes "Grow_loop b a n = Some y"
  shows "\<not> (b = 0 \<and> 1 \<le> a \<and> a \<le> INT_MAX \<and> n = 0)"
proof (rule Grow_loop.raw_induct
    [where P = "\<lambda>b a n y. \<not> (b = 0 \<and> 1 \<le> a \<and> a \<le> INT_MAX \<and> n = 0)", OF _ assms])
  fix f :: "int \<Rightarrow> int \<Rightarrow> int \<Rightarrow> int option option" and b a n y
  assume ih: "\<And>b a n y. f b a n = Some y \<Longrightarrow> \<not> (b = 0 \<and> 1 \<le> a \<and> a \<le> INT_MAX \<and> n = 0)"
    and body: "(if 2 ^ 30 \<le> n then Some None
         else let new_len' = wrap32 (n * 2)
              in if new_len' < wrap32 (b + a) then f b a new_len'
                 else Some (Some new_len')) = Some y"
  show "\<not> (b = 0 \<and> 1 \<le> a \<and> a \<le> INT_MAX \<and> n = 0)"
  proof
    assume h: "b = 0 \<and> 1 \<le> a \<and> a \<le> INT_MAX \<and> n = 0"
    then have w: "wrap32 (b + a) = a" by (simp add: wrap32_id INT_MAX_def)
    have "wrap32 (n * 2) = 0" using h by (simp add: wrap32_def)
    with h w body have "f b a 0 = Some y" by (simp add: Let_def)
    with ih h show False by blast
  qed
qed

lemma Grow_loop_zero: "1 \<le> m \<Longrightarrow> m \<le> INT_MAX \<Longrightarrow> Grow_loop 0 m 0 = None"
  using Grow_loop_zero_aux [of 0 m 0] by (cases "Grow_loop 0 m 0") auto

lemma Append_loop_fields:
  "cur_len (Append_loop str str_len i s) = cur_len s \<and>
   buffer_len (Append_loop str str_len i s) = buffer_len s \<and>
   length (buffer (Append_loop str str_len i s)) = length (buffer s)"
proof (induction str str_len i s rule: Append_loop.induct)
  case (1 str str_len i s)
  show ?case
  proof (cases "i < str_len")
    case True
    with 1 show ?thesis
      by (subst (1 2 3) Append_loop.simps) (simp add: poke_def)
  next
    case False
    then show ?thesis by (subst (1 2 3) Append_loop.simps) simp
  qed
qed

lemma Grow_loop_doubles:
  assumes "Grow_loop b a n = Some y"
  shows "1 \<le> n \<longrightarrow> (\<forall>m. y = Some m \<longrightarrow> (\<exists>k\<ge>1. m = n * 2 ^ k))"
proof (rule Grow_loop.raw_induct
    [where P = "\<lambda>b a n y. 1 \<le> n \<longrightarrow> (\<forall>m. y = Some m \<longrightarrow> (\<exists>k\<ge>1. m = n * 2 ^ k))",
      OF _ assms])
  fix f :: "int \<Rightarrow> int \<Rightarrow> int \<Rightarrow> int option option" and b a n y
  assume ih: "\<And>b a n y. f b a n = Some y \<Longrightarrow>
        1 \<le> n \<longrightarrow> (\<forall>m. y = Some m \<longrightarrow> (\<exists>k\<ge>1. m = n * 2 ^ k))"
    and body: "(if 2 ^ 30 \<le> n then Some None
         else let new_len' = wrap32 (n * 2)
              in if new_len' < wrap32 (b + a) then f b a new_len'
                 else Some (Some new_len')) = Some y"
  show "1 \<le> n \<longrightarrow> (\<forall>m. y = Some m \<longrightarrow> (\<exists>k\<ge>1. m = n * 2 ^ k))"
  proof (intro impI allI)
    fix m assume n: "1 \<le> n" and y: "y = Some m"
    from body y have small: "n < 2 ^ 30" by (auto split: if_splits)
    with n have w: "wrap32 (n * 2) = 2 * n" by (rule wrap32_double)
    show "\<exists>k\<ge>1. m = n * 2 ^ k"
    proof (cases "2 * n < wrap32 (b + a)")
      case True
      with body small w have "f b a (2 * n) = Some y" by (simp add: Let_def)
      from ih [OF this] n y obtain k where "1 \<le> k" "m = (2 * n) * 2 ^ k" by auto
      then have "1 \<le> Suc k \<and> m = n * 2 ^ Suc k" by simp
      then show ?thesis by blast
    next
      case False
      with body small w y have "m = n * 2 ^ 1" by (simp add: Let_def)
      then show ?thesis by blast
    qed
  qed
qed

lemma Grow_loop_succeeds_below_cap:
  "1 \<le> n \<Longrightarrow> n < 2 ^ 30 \<Longrightarrow> wrap32 (b + a) \<le> 2 ^ 30 \<Longrightarrow> \<exists>m. Grow_loop b a n = Some (Some m)"
proof (induction "nat (2 ^ 30 - n)" arbitrary: n rule: less_induct)
  case less
  from less.prems have w: "wrap32 (n * 2) = 2 * n" by (simp add: wrap32_double)
  show ?case
  proof (cases "2 * n < wrap32 (b + a)")
    case True
    with less.prems have "2 * n < 2 ^ 30" by simp
    then have "\<exists>m. Grow_loop b a (2 * n) = Some (Some m)"
      using less.prems by (intro less.hyps) auto
    with True less.prems w show ?thesis by (subst Grow_loop.simps) (simp add: Let_def)
  next
    case False
    with less.prems w show ?thesis by (subst Grow_loop.simps) (simp add: Let_def)
  qed
qed

lemma Grow_returns:
  "1 \<le> buffer_len s \<Longrightarrow> \<exists>ok s'. Grow resize m s = Some (ok, s')"
proof -
  assume "1 \<le> buffer_len s"
  then obtain r where "Grow_loop (buffer_len s) m (buffer_len s) = Some r"
    using Grow_loop_returns by blast
  then show ?thesis by (cases r) (auto simp: Grow_def)
qed

lemma Grow_False_unchanged:
  "Grow resize m s = Some (False, s') \<Longrightarrow> s' = s"
  by (auto simp: Grow_def split: option.splits)

lemma Grow_True_inv:
  assumes inv: "buffer_inv s" and rc: "resize_contract resize"
    and g: "Grow resize m s = Some (True, s')"
    and pos: "1 \<le> buffer_len s"
  shows "buffer_inv s' \<and> cur_len s' = cur_len s \<and> 2 * buffer_len s \<le> buffer_len s' \<and>
         wrap32 (buffer_len s + m) \<le> buffer_len s' \<and>
         take (nat (cur_len s)) (buffer s') = take (nat (cur_len s)) (buffer s)"
proof -
  from g obtain n where loop: "Grow_loop (buffer_len s) m (buffer_len s) = Some (Some n)"
    and s': "s' = resize n s"
    by (auto simp: Grow_def split: option.splits)
  from Grow_loop_result [OF loop] pos
  have n: "2 * buffer_len s \<le> n" "n \<le> INT_MAX" "wrap32 (buffer_len s + m) \<le> n" by auto
  with pos have "buffer_len s < n" by simp
  with rc inv n(2) have c: "buffer_len (resize n s) = n"
    "int (length (buffer (resize n s))) = n"
    "cur_len (resize n s) = cur_len s"
    "take (nat (cur_len s)) (buffer (resize n s)) = take (nat (cur_len s)) (buffer s)"
    unfolding resize_contract_def by blast+
  from inv have "0 \<le> cur_len s" "cur_len s \<le> buffer_len s" by (simp_all add: buffer_inv_def)
  with c n pos s' show ?thesis by (simp add: buffer_inv_def)
qed

lemma insert_at_end_inv:
  "buffer_inv s \<Longrightarrow> cur_len s < buffer_len s \<Longrightarrow> buffer_inv (insert_at_end ch s)"
  by (simp add: buffer_inv_def insert_at_end_def poke_def wrap32_id INT_MAX_def)

lemma push_back_inv:
  assumes inv: "buffer_inv s" and rc: "resize_contract resize"
    and p: "push_back resize ch s = Some s'"
  shows "buffer_inv s'"
proof (cases "cur_len s < buffer_len s")
  case True
  with p inv show ?thesis by (auto simp: push_back_def insert_at_end_inv)
next
  case False
  with p obtain ok t where g: "Grow resize 1 s = Some (ok, t)"
    and s': "s' = (if ok then insert_at_end ch t else t)"
    by (auto simp: push_back_def split: option.splits bool.splits)
  show ?thesis
  proof (cases ok)
    case False
    with g s' inv show ?thesis by (auto dest: Grow_False_unchanged)
  next
    case True
    have pos: "1 \<le> buffer_len s"
    proof (rule ccontr)
      assume "\<not> 1 \<le> buffer_len s"
      with inv have "buffer_len s = 0" by (simp add: buffer_inv_def)
      with g show False by (simp add: Grow_def Grow_loop_zero INT_MAX_def)
    qed
    from Grow_True_inv [OF inv rc _ pos] g True
    have t: "buffer_inv t" "cur_len t = cur_len s" "2 * buffer_len s \<le> buffer_len t" by auto
    from inv have "cur_len s \<le> buffer_len s" by (simp add: buffer_inv_def)
    with t pos have "cur_len t < buffer_len t" by simp
    with t(1) s' True show ?thesis by (simp add: insert_at_end_inv)
  qed
qed


lemma Append_copy_inv:
  assumes inv: "buffer_inv t" and n: "0 \<le> str_len" and fit: "cur_len t + str_len \<le> buffer_len t"
  shows "buffer_inv ((Append_loop str str_len 0 t)
            \<lparr>cur_len := wrap32 (cur_len (Append_loop str str_len 0 t) + str_len)\<rparr>)"
proof -
  from inv have r: "0 \<le> cur_len t" "buffer_len t \<le> INT_MAX" by (simp_all add: buffer_inv_def)
  with n fit have "wrap32 (cur_len t + str_len) = cur_len t + str_len"
    by (intro wrap32_id) (simp_all add: INT_MAX_def)
  with inv n fit show ?thesis by (simp add: buffer_inv_def Append_loop_fields)
qed

lemma Append_inv:
  assumes inv: "buffer_inv s" and rc: "resize_contract resize"
    and n: "0 \<le> str_len" and range: "cur_len s + str_len \<le> INT_MAX"
    and a: "Append resize str str_len s = Some s'"
  shows "buffer_inv s'"
proof -
  from inv have r: "0 \<le> cur_len s" "cur_len s \<le> buffer_len s" "buffer_len s \<le> INT_MAX" "0 \<le> buffer_len s"
    by (simp_all add: buffer_inv_def)
  with n range have w: "wrap32 (cur_len s + str_len) = cur_len s + str_len"
    by (intro wrap32_id) (simp_all add: INT_MAX_def)
  show ?thesis
  proof (cases "cur_len s + str_len > buffer_len s")
    case False
    with a w have "s' = (Append_loop str str_len 0 s)
            \<lparr>cur_len := wrap32 (cur_len (Append_loop str str_len 0 s) + str_len)\<rparr>"
      by (simp add: Append_def Let_def)
    with Append_copy_inv [OF inv n] False show ?thesis by simp
  next
    case True
    define m where "m = cur_len s + str_len - buffer_len s"
    have m: "1 \<le> m" "m \<le> INT_MAX" using True r range n by (simp_all add: m_def)
    then have wm: "wrap32 m = m" by (intro wrap32_id) (simp_all add: INT_MAX_def)
    from a w True wm obtain ok t where g: "Grow resize m s = Some (ok, t)"
      and s': "s' = (if ok then (Append_loop str str_len 0 t)
            \<lparr>cur_len := wrap32 (cur_len (Append_loop str str_len 0 t) + str_len)\<rparr> else t)"
      by (auto simp: Append_def Let_def m_def split: option.splits bool.splits)
    show ?thesis
    proof (cases ok)
      case False
      with g s' inv show ?thesis by (auto dest: Grow_False_unchanged)
    next
      case ok: True
      have pos: "1 \<le> buffer_len s"
      proof (rule ccontr)
        assume "\<not> 1 \<le> buffer_len s"
        with r have "buffer_len s = 0" by simp
        with g m show False by (simp add: Grow_def Grow_loop_zero)
      qed
      from Grow_True_inv [OF inv rc _ pos] g ok
      have t: "buffer_inv t" "cur_len t = cur_len s" "wrap32 (buffer_len s + m) \<le> buffer_len t"
        by auto
      have "buffer_len s + m = cur_len s + str_len" by (simp add: m_def)
      with t(3) w have "cur_len t + str_len \<le> buffer_len t" using t(2) by simp
      from Append_copy_inv [OF t(1) n this] s' ok show ?thesis by simp
    qed
  qed
qed

lemma push_back_returns:
  "1 \<le> buffer_len s \<Longrightarrow> \<exists>s'. push_back resize ch s = Some s'"
  using Grow_returns [of s resize 1]
  by (auto simp: push_back_def split: option.splits bool.splits)

lemma Append_returns:
  "1 \<le> buffer_len s \<Longrightarrow> \<exists>s'. Append resize str str_len s = Some s'"
  using Grow_returns [of s resize "wrap32 (wrap32 (cur_len s + str_len) - buffer_len s)"]
  by (auto simp: Append_def Let_def split: option.splits bool.splits)

lemma memcpy_length: "length (memcpy dst src n) = length dst"
  by (simp add: memcpy_def Let_def)

lemma memcpy_take:
  "0 \<le> n \<Longrightarrow> nat n \<le> length src \<Longrightarrow> nat n \<le> length dst \<Longrightarrow>
   take (nat n) (memcpy dst src n) = take (nat n) src"
  by (simp add: memcpy_def Let_def min_absorb1)

lemma Resize_fields:
  assumes inv: "buffer_inv s" and sz: "buffer_len s < sz"
  shows "buffer_len (Resize sz s) = sz" "int (length (buffer (Resize sz s))) = sz"
    "cur_len (Resize sz s) = cur_len s"
    "take (nat (cur_len s)) (buffer (Resize sz s)) = take (nat (cur_len s)) (buffer s)"
proof -
  from inv have r: "int (length (buffer s)) = buffer_len s" "0 \<le> cur_len s"
    "cur_len s \<le> buffer_len s" by (simp_all add: buffer_inv_def)
  show "buffer_len (Resize sz s) = sz" "cur_len (Resize sz s) = cur_len s"
    by (simp_all add: Resize_def Let_def)
  from r sz show "int (length (buffer (Resize sz s))) = sz"
    by (simp add: Resize_def Let_def memcpy_length)
  from r sz have "nat (cur_len s) \<le> length (buffer s)" "nat (cur_len s) \<le> nat sz" by linarith+
  with r sz show "take (nat (cur_len s)) (buffer (Resize sz s)) = take (nat (cur_len s)) (buffer s)"
    by (simp add: Resize_def Let_def memcpy_take)
qed

lemma Resize_meets_contract: "resize_contract Resize"
  unfolding resize_contract_def using Resize_fields by blast

lemma at_of_equal_prefix:
  "0 \<le> i \<Longrightarrow> i < n \<Longrightarrow> int (length (buffer s)) \<ge> n \<Longrightarrow> int (length (buffer t)) \<ge> n \<Longrightarrow>
   take (nat n) (buffer t) = take (nat n) (buffer s) \<Longrightarrow> at t i = at s i"
proof -
  assume h: "0 \<le> i" "i < n" "int (length (buffer s)) \<ge> n" "int (length (buffer t)) \<ge> n"
    and tk: "take (nat n) (buffer t) = take (nat n) (buffer s)"
  have "buffer t ! nat i = take (nat n) (buffer t) ! nat i" using h by simp
  also have "\<dots> = take (nat n) (buffer s) ! nat i" by (simp only: tk)
  also have "\<dots> = buffer s ! nat i" using h by simp
  finally show ?thesis using h by (simp add: at_def)
qed

lemma two_chars_inv: "buffer_inv two_chars"
  by (simp add: buffer_inv_def two_chars_def INT_MAX_def)

lemma Grow_loop_2: "Grow_loop 2 a 2 = (if 4 < wrap32 (2 + a) then Grow_loop 2 a 4 else Some (Some 4))"
  by (subst Grow_loop.simps) (simp add: wrap32_def)

lemma Grow_two_chars: "Grow Resize 1 two_chars =
   Some (True, \<lparr>buffer = [Some CHR ''a'', Some CHR ''b'', None, None], buffer_len = 4, cur_len = 2\<rparr>)"
  by (simp add: Grow_def two_chars_def Grow_loop_2 wrap32_def Resize_def memcpy_def eval_nat_numeral)

lemma push_back_two_chars: "push_back Resize CHR ''c'' two_chars =
   Some \<lparr>buffer = [Some CHR ''a'', Some CHR ''b'', Some CHR ''c'', None], buffer_len = 4, cur_len = 3\<rparr>"
proof -
  have "\<not> cur_len two_chars < buffer_len two_chars" by (simp add: two_chars_def)
  then show ?thesis
    by (simp add: push_back_def Grow_two_chars insert_at_end_def poke_def wrap32_def)
qed

lemma Append_two_chars: "Append Resize ''cd'' 2 two_chars =
   Some \<lparr>buffer = [Some CHR ''a'', Some CHR ''b'', Some CHR ''c'', Some CHR ''d''], buffer_len = 4, cur_len = 4\<rparr>"
proof -
  have w: "cur_len two_chars = 2" "buffer_len two_chars = 2" "wrap32 4 = 4" "wrap32 2 = 2"
    by (simp_all add: two_chars_def wrap32_def)
  have g: "Grow Resize 2 two_chars =
    Some (True, \<lparr>buffer = [Some CHR ''a'', Some CHR ''b'', None, None], buffer_len = 4, cur_len = 2\<rparr>)"
    by (simp add: Grow_def two_chars_def Grow_loop_2 wrap32_def Resize_def memcpy_def eval_nat_numeral)
  have l: "Append_loop ''cd'' 2 0 \<lparr>buffer = [Some CHR ''a'', Some CHR ''b'', None, None], buffer_len = 4, cur_len = 2\<rparr>
     = \<lparr>buffer = [Some CHR ''a'', Some CHR ''b'', Some CHR ''c'', Some CHR ''d''], buffer_len = 4, cur_len = 2\<rparr>"
    by (simp add: Append_loop.simps poke_def wrap32_def)
  show ?thesis
    by (simp add: Append_def Let_def w g l)
qed


lemma set_length_inv:
  "buffer_inv s \<Longrightarrow> 0 \<le> new_len \<Longrightarrow> new_len \<le> buffer_len s \<Longrightarrow> buffer_inv (set_length new_len s)"
  by (simp add: buffer_inv_def set_length_def)

lemma ctor_inv: "buffer_inv CanonOutputT_ctor"
  by (simp add: buffer_inv_def CanonOutputT_ctor_def INT_MAX_def)

lemma Raw_ctor_inv: "0 \<le> fixed_capacity \<Longrightarrow> fixed_capacity \<le> INT_MAX \<Longrightarrow> buffer_inv (RawCanonOutputT_ctor fixed_capacity)"
  by (simp add: buffer_inv_def RawCanonOutputT_ctor_def CanonOutputT_ctor_def)

lemma Grow_inv:
  assumes inv: "buffer_inv s" and rc: "resize_contract resize"
    and m: "1 \<le> m" "m \<le> INT_MAX" and g: "Grow resize m s = Some (ok, s')"
  shows "buffer_inv s'"
proof (cases ok)
  case False
  with g inv show ?thesis by (auto dest: Grow_False_unchanged)
next
  case True
  have pos: "1 \<le> buffer_len s"
  proof (rule ccontr)
    assume "\<not> 1 \<le> buffer_len s"
    with inv have "buffer_len s = 0" by (simp add: buffer_inv_def)
    with g m show False by (simp add: Grow_def Grow_loop_zero)
  qed
  from Grow_True_inv [OF inv rc _ pos] g True show ?thesis by auto
qed

lemma Grow_at_the_cap: "Grow resize m at_the_cap = Some (False, at_the_cap)"
proof -
  have "Grow_loop (2 ^ 30) m (2 ^ 30) = Some None"
    by (subst Grow_loop.simps) simp
  then show ?thesis by (simp add: Grow_def at_the_cap_def)
qed


section \<open>Facts about the UTF-8 writer, the readers and the validator\<close>

lemma radix64_split2:
  fixes cp :: nat
  obtains a b where "cp = a * 64 + b" "b < 64" "cp div 64 = a" "cp mod 64 = b"
  by (metis div_mult_mod_eq mod_less_divisor zero_less_numeral)

lemma radix64_split3:
  fixes cp :: nat
  obtains a b c where "cp = a * 4096 + b * 64 + c" "b < 64" "c < 64"
    "cp div 4096 = a" "(cp div 64) mod 64 = b" "cp mod 64 = c"
proof -
  have d: "cp div 4096 = (cp div 64) div 64" by (simp add: div_mult2_eq [symmetric])
  have "cp = (cp div 64) * 64 + cp mod 64" by simp
  moreover have "cp div 64 = ((cp div 64) div 64) * 64 + (cp div 64) mod 64" by simp
  ultimately have "cp = (cp div 4096) * 4096 + ((cp div 64) mod 64) * 64 + cp mod 64"
    using d by linarith
  then show ?thesis using that [of "cp div 4096" "(cp div 64) mod 64" "cp mod 64"] by simp
qed

lemma radix64_split4:
  fixes cp :: nat
  obtains a b c d where "cp = a * 262144 + b * 4096 + c * 64 + d" "b < 64" "c < 64" "d < 64"
    "cp div 262144 = a" "(cp div 4096) mod 64 = b" "(cp div 64) mod 64 = c" "cp mod 64 = d"
proof -
  have d1: "cp div 4096 = (cp div 64) div 64" by (simp add: div_mult2_eq [symmetric])
  have d2: "cp div 262144 = (cp div 4096) div 64" by (simp add: div_mult2_eq [symmetric])
  have "cp = (cp div 64) * 64 + cp mod 64" by simp
  moreover have "cp div 64 = ((cp div 64) div 64) * 64 + (cp div 64) mod 64" by simp
  moreover have "cp div 4096 = ((cp div 4096) div 64) * 64 + (cp div 4096) mod 64" by simp
  ultimately have "cp = (cp div 262144) * 262144 + ((cp div 4096) mod 64) * 4096
      + ((cp div 64) mod 64) * 64 + cp mod 64"
    using d1 d2 by linarith
  then show ?thesis
    using that [of "cp div 262144" "(cp div 4096) mod 64" "(cp div 64) mod 64" "cp mod 64"] by simp
qed

lemma utf8_encode_two_bytes:
  assumes "0x80 \<le> cp" "cp < (0x800::nat)"
  shows "0xC2 \<le> 0xC0 + cp div 64 \<and> 0xC0 + cp div 64 \<le> 0xDF \<and> is_cont (0x80 + cp mod 64)"
proof -
  obtain a b where "cp = a * 64 + b" "b < 64" "cp div 64 = a" "cp mod 64 = b" by (rule radix64_split2)
  with assms show ?thesis unfolding is_cont_def by simp
qed

lemma utf8_encode_three_bytes:
  assumes "0x800 \<le> cp" "cp < (0x10000::nat)" "is_scalar cp"
  shows "0xE0 + cp div 4096 \<le> 0xEF \<and>
    second3 (0xE0 + cp div 4096) (0x80 + (cp div 64) mod 64) \<and>
    is_cont (0x80 + cp mod 64)"
proof -
  obtain a b c where s: "cp = a * 4096 + b * 64 + c" "b < 64" "c < 64"
    "cp div 4096 = a" "(cp div 64) mod 64 = b" "cp mod 64 = c" by (rule radix64_split3)
  from assms(2) s(1) have 1: "a \<le> 15" by linarith
  from assms(1) s(1,3) have 2: "a = 0 \<longrightarrow> 32 \<le> b" by auto
  from assms(2,3) s(1,2,3) have 3: "a = 13 \<longrightarrow> b < 32" unfolding is_scalar_def by auto
  from 1 2 3 s(2,3) show ?thesis
    unfolding s(4,5,6) second3_def is_cont_def by auto
qed

lemma utf8_encode_four_bytes:
  assumes "0x10000 \<le> cp" "is_scalar cp"
  shows "0xF0 + cp div 262144 \<le> 0xF4 \<and>
    second4 (0xF0 + cp div 262144) (0x80 + (cp div 4096) mod 64) \<and>
    is_cont (0x80 + (cp div 64) mod 64) \<and> is_cont (0x80 + cp mod 64)"
proof -
  from assms have le: "cp \<le> 0x10FFFF" unfolding is_scalar_def by simp
  obtain a b c d where s: "cp = a * 262144 + b * 4096 + c * 64 + d" "b < 64" "c < 64" "d < 64"
    "cp div 262144 = a" "(cp div 4096) mod 64 = b" "(cp div 64) mod 64 = c" "cp mod 64 = d"
    by (rule radix64_split4)
  from le s(1) have 1: "a \<le> 4" by linarith
  from assms(1) s(1,3,4) have 2: "a = 0 \<longrightarrow> 16 \<le> b" by auto
  from le s(1) have 3: "a = 4 \<longrightarrow> b < 16" by auto
  from 1 2 3 s(2,3,4) show ?thesis
    unfolding s(5,6,7,8) second4_def is_cont_def by auto
qed

lemma valid_utf8_encode:
  assumes "is_scalar cp"
  shows "valid_utf8 (utf8_encode cp @ rest) = valid_utf8 rest"
proof -
  consider "cp < 0x80" | "0x80 \<le> cp" "cp < 0x800" | "0x800 \<le> cp" "cp < 0x10000" | "0x10000 \<le> cp"
    by linarith
  then show ?thesis
  proof cases
    case 1
    then show ?thesis by (simp add: utf8_encode_def)
  next
    case 2
    from utf8_encode_two_bytes [OF 2] 2 show ?thesis by (simp add: utf8_encode_def)
  next
    case 3
    from utf8_encode_three_bytes [OF 3 assms] 3 show ?thesis by (simp add: utf8_encode_def)
  next
    case 4
    from utf8_encode_four_bytes [OF 4 assms] 4 show ?thesis by (simp add: utf8_encode_def)
  qed
qed


lemma offset_within: "(lo::nat) \<le> b \<Longrightarrow> b \<le> hi \<Longrightarrow> \<exists>x. b = lo + x \<and> x \<le> hi - lo"
  by (rule exI [of _ "b - lo"]) simp

lemma two_byte_value_scalar:
  assumes "0xC2 \<le> b0" "b0 \<le> 0xDF" "is_cont b1"
  shows "is_scalar ((b0 - 0xC0) * 64 + (b1 - 0x80))"
proof -
  from assms(1,2) have "0xC0 \<le> b0" by simp
  from offset_within [OF this assms(2)] obtain x where x: "b0 = 0xC0 + x" "x \<le> 31" by auto
  from assms(3) offset_within [of "0x80" b1 "0xBF"] obtain y where y: "b1 = 0x80 + y" "y \<le> 63"
    unfolding is_cont_def by auto
  from x y show ?thesis unfolding is_scalar_def by simp
qed

lemma three_byte_value_scalar:
  assumes "0xE0 \<le> b0" "b0 \<le> 0xEF" "second3 b0 b1" "is_cont b2"
  shows "is_scalar ((b0 - 0xE0) * 4096 + (b1 - 0x80) * 64 + (b2 - 0x80))"
proof -
  from assms(3) have b1: "0x80 \<le> b1" "b1 \<le> 0xBF" "b0 = 0xED \<longrightarrow> b1 \<le> 0x9F"
    unfolding second3_def is_cont_def by (auto split: if_splits)
  from offset_within [OF assms(1,2)] obtain x where x: "b0 = 0xE0 + x" "x \<le> 15" by auto
  from offset_within [OF b1(1,2)] obtain y where y: "b1 = 0x80 + y" "y \<le> 63" by auto
  from assms(4) offset_within [of "0x80" b2 "0xBF"] obtain z where z: "b2 = 0x80 + z" "z \<le> 63"
    unfolding is_cont_def by auto
  from b1(3) x y have s: "x = 13 \<longrightarrow> y \<le> 31" by simp
  consider "x \<le> 12" | "x = 13" | "14 \<le> x" by linarith
  then show ?thesis
  proof cases
    case 1
    with x y z show ?thesis unfolding is_scalar_def by simp
  next
    case 2
    with x y z s show ?thesis unfolding is_scalar_def by simp
  next
    case 3
    with x y z show ?thesis unfolding is_scalar_def by simp
  qed
qed

lemma four_byte_value_scalar:
  assumes "0xF0 \<le> b0" "b0 \<le> 0xF4" "second4 b0 b1" "is_cont b2" "is_cont b3"
  shows "is_scalar ((b0 - 0xF0) * 262144 + (b1 - 0x80) * 4096 + (b2 - 0x80) * 64 + (b3 - 0x80))"
proof -
  from assms(3) have b1: "0x80 \<le> b1" "b1 \<le> 0xBF" "b0 = 0xF4 \<longrightarrow> b1 \<le> 0x8F"
    "b0 = 0xF0 \<longrightarrow> 0x90 \<le> b1"
    unfolding second4_def is_cont_def by (auto split: if_splits)
  from offset_within [OF assms(1,2)] obtain x where x: "b0 = 0xF0 + x" "x \<le> 4" by auto
  from offset_within [OF b1(1,2)] obtain y where y: "b1 = 0x80 + y" "y \<le> 63" by auto
  from assms(4) offset_within [of "0x80" b2 "0xBF"] obtain z where z: "b2 = 0x80 + z" "z \<le> 63"
    unfolding is_cont_def by auto
  from assms(5) offset_within [of "0x80" b3 "0xBF"] obtain w where w: "b3 = 0x80 + w" "w \<le> 63"
    unfolding is_cont_def by auto
  from b1(3,4) x y have s: "x = 4 \<longrightarrow> y \<le> 15" "x = 0 \<longrightarrow> 16 \<le> y" by simp_all
  consider "x = 0" | "1 \<le> x" "x \<le> 3" | "x = 4" using x(2) by linarith
  then show ?thesis
  proof cases
    case 1
    with x y z w s show ?thesis unfolding is_scalar_def by simp
  next
    case 2
    with x y z w show ?thesis unfolding is_scalar_def by simp
  next
    case 3
    with x y z w s show ?thesis unfolding is_scalar_def by simp
  qed
qed

lemma read_utf8_scalar:
  assumes "read_utf8 bs = (Some cp, n)"
  shows "is_scalar cp"
proof (cases bs)
  case Nil
  with assms show ?thesis by (simp add: read_utf8_def)
next
  case (Cons b0 r0)
  consider "b0 < 0x80" | "0xC2 \<le> b0" "b0 \<le> 0xDF" | "0xE0 \<le> b0" "b0 \<le> 0xEF"
    | "0xF0 \<le> b0" "b0 \<le> 0xF4"
    | "\<not> b0 < 0x80" "\<not> (0xC2 \<le> b0 \<and> b0 \<le> 0xDF)" "\<not> (0xE0 \<le> b0 \<and> b0 \<le> 0xEF)"
      "\<not> (0xF0 \<le> b0 \<and> b0 \<le> 0xF4)"
    by linarith
  then show ?thesis
  proof cases
    case 1
    with assms Cons show ?thesis by (simp add: read_utf8_def is_scalar_def)
  next
    case 2
    with assms Cons have "\<exists>b1. is_cont b1 \<and> cp = (b0 - 0xC0) * 64 + (b1 - 0x80)"
      by (auto simp: read_utf8_def split: list.splits if_splits)
    with 2 show ?thesis by (auto simp: two_byte_value_scalar)
  next
    case 3
    with assms Cons have "\<exists>b1 b2. second3 b0 b1 \<and> is_cont b2 \<and>
        cp = (b0 - 0xE0) * 4096 + (b1 - 0x80) * 64 + (b2 - 0x80)"
      by (auto simp: read_utf8_def split: list.splits if_splits)
    with 3 show ?thesis by (auto simp: three_byte_value_scalar)
  next
    case 4
    with assms Cons have "\<exists>b1 b2 b3. second4 b0 b1 \<and> is_cont b2 \<and> is_cont b3 \<and>
        cp = (b0 - 0xF0) * 262144 + (b1 - 0x80) * 4096 + (b2 - 0x80) * 64 + (b3 - 0x80)"
      by (auto simp: read_utf8_def split: list.splits if_splits)
    with 4 show ?thesis by (auto simp: four_byte_value_scalar)
  next
    case 5
    with assms Cons show ?thesis by (simp add: read_utf8_def)
  qed
qed

lemma decode_utf8_scalar:
  "Some cp \<in> set (decode_utf8 bs) \<Longrightarrow> is_scalar cp"
proof (induction bs rule: decode_utf8.induct)
  case (1 bs)
  show ?case
  proof (cases "bs = []")
    case True
    with 1(2) show ?thesis by (simp add: decode_utf8.simps)
  next
    case False
    with 1(2) have "Some cp = fst (read_utf8 bs) \<or>
        Some cp \<in> set (decode_utf8 (drop (snd (read_utf8 bs)) bs))"
      by (subst (asm) decode_utf8.simps) simp
    then show ?thesis
    proof
      assume "Some cp = fst (read_utf8 bs)"
      then have "read_utf8 bs = (Some cp, snd (read_utf8 bs))" by (metis prod.collapse)
      then show ?thesis by (rule read_utf8_scalar)
    next
      assume "Some cp \<in> set (decode_utf8 (drop (snd (read_utf8 bs)) bs))"
      with 1(1) [OF False] show ?thesis .
    qed
  qed
qed

lemma read_utf16_scalar:
  assumes "read_utf16 us = (Some cp, n)"
  shows "is_scalar cp"
proof (cases us)
  case Nil
  with assms show ?thesis by (simp add: read_utf16_def)
next
  case (Cons u r0)
  have lt: "unat u < 0x10000" using unsigned_less [of u, where 'a = nat] by simp
  consider "unat u < 0xD800 \<or> 0xE000 \<le> unat u" | "0xD800 \<le> unat u" "unat u < 0xDC00"
    | "0xDC00 \<le> unat u" "unat u < 0xE000" by linarith
  then show ?thesis
  proof cases
    case 1
    with assms Cons lt show ?thesis by (auto simp: read_utf16_def is_scalar_def)
  next
    case 2
    with assms Cons have "\<exists>l. 0xDC00 \<le> l \<and> l < 0xE000 \<and>
        cp = 0x10000 + (unat u - 0xD800) * 1024 + (l - 0xDC00)"
      by (auto simp: read_utf16_def split: list.splits if_splits)
    then obtain l where l: "0xDC00 \<le> l" "l < 0xE000"
      "cp = 0x10000 + (unat u - 0xD800) * 1024 + (l - 0xDC00)" by blast
    from offset_within [OF 2(1), of "0xDBFF"] 2(2) obtain x where x: "unat u = 0xD800 + x" "x \<le> 1023"
      by auto
    from offset_within [OF l(1), of "0xDFFF"] l(2) obtain y where y: "l = 0xDC00 + y" "y \<le> 1023"
      by auto
    from x y l(3) show ?thesis unfolding is_scalar_def by simp
  next
    case 3
    with assms Cons show ?thesis by (simp add: read_utf16_def)
  qed
qed

lemma decode_utf16_scalar:
  "Some cp \<in> set (decode_utf16 us) \<Longrightarrow> is_scalar cp"
proof (induction us rule: decode_utf16.induct)
  case (1 us)
  show ?case
  proof (cases "us = []")
    case True
    with 1(2) show ?thesis by (simp add: decode_utf16.simps)
  next
    case False
    with 1(2) have "Some cp = fst (read_utf16 us) \<or>
        Some cp \<in> set (decode_utf16 (drop (snd (read_utf16 us)) us))"
      by (subst (asm) decode_utf16.simps) simp
    then show ?thesis
    proof
      assume "Some cp = fst (read_utf16 us)"
      then have "read_utf16 us = (Some cp, snd (read_utf16 us))" by (metis prod.collapse)
      then show ?thesis by (rule read_utf16_scalar)
    next
      assume "Some cp \<in> set (decode_utf16 (drop (snd (read_utf16 us)) us))"
      with 1(1) [OF False] show ?thesis .
    qed
  qed
qed

lemma radix64_digits2:
  fixes x y :: nat
  assumes "y < 64"
  shows "(x * 64 + y) div 64 = x" "(x * 64 + y) mod 64 = y"
  using assms by simp_all

lemma radix64_digits3:
  fixes x y z :: nat
  assumes "y < 64" "z < 64"
  shows "(x * 4096 + y * 64 + z) div 4096 = x" "((x * 4096 + y * 64 + z) div 64) mod 64 = y"
    "(x * 4096 + y * 64 + z) mod 64 = z"
proof -
  let ?n = "x * 4096 + y * 64 + z"
  have e: "?n = (x * 64 + y) * 64 + z" by simp
  have d: "?n div 64 = x * 64 + y"
    by (subst e) (rule radix64_digits2(1) [OF assms(2)])
  show "(?n div 64) mod 64 = y" by (subst d) (rule radix64_digits2(2) [OF assms(1)])
  show "?n mod 64 = z" by (subst e) (rule radix64_digits2(2) [OF assms(2)])
  have "?n div 4096 = (?n div 64) div 64"
    by (simp add: div_mult2_eq [symmetric])
  also have "\<dots> = x" by (subst d) (rule radix64_digits2(1) [OF assms(1)])
  finally show "?n div 4096 = x" .
qed

lemma radix64_digits4:
  fixes x y z w :: nat
  assumes "y < 64" "z < 64" "w < 64"
  shows "(x * 262144 + y * 4096 + z * 64 + w) div 262144 = x"
    "((x * 262144 + y * 4096 + z * 64 + w) div 4096) mod 64 = y"
    "((x * 262144 + y * 4096 + z * 64 + w) div 64) mod 64 = z"
    "(x * 262144 + y * 4096 + z * 64 + w) mod 64 = w"
proof -
  let ?n = "x * 262144 + y * 4096 + z * 64 + w"
  have e: "?n = (x * 4096 + y * 64 + z) * 64 + w" by simp
  have d1: "?n div 64 = x * 4096 + y * 64 + z"
    by (subst e) (rule radix64_digits2(1) [OF assms(3)])
  have d2: "?n div 4096 = (?n div 64) div 64" by (simp add: div_mult2_eq [symmetric])
  have d3: "?n div 262144 = (?n div 64) div 4096" by (simp add: div_mult2_eq [symmetric])
  have d4: "(x * 4096 + y * 64 + z) div 64 = x * 64 + y"
  proof -
    have "x * 4096 + y * 64 + z = (x * 64 + y) * 64 + z" by simp
    then show ?thesis using radix64_digits2(1) [OF assms(2), of "x * 64 + y"] by simp
  qed
  show "?n mod 64 = w" by (subst e) (rule radix64_digits2(2) [OF assms(3)])
  show "(?n div 64) mod 64 = z" by (subst d1) (rule radix64_digits3(3) [OF assms(1,2)])
  show "(?n div 4096) mod 64 = y"
    by (subst d2, subst d1) (rule radix64_digits3(2) [OF assms(1,2)])
  show "?n div 262144 = x" by (subst d3, subst d1) (rule radix64_digits3(1) [OF assms(1,2)])
qed

lemma utf8_encode_two_byte_value:
  assumes "0xC2 \<le> b0" "b0 \<le> 0xDF" "is_cont b1"
  shows "utf8_encode ((b0 - 0xC0) * 64 + (b1 - 0x80)) = [b0, b1]"
proof -
  from offset_within [OF assms(1,2)] obtain x where x: "b0 = 0xC2 + x" "x \<le> 29" by auto
  from assms(3) offset_within [of "0x80" b1 "0xBF"] obtain y where y: "b1 = 0x80 + y" "y \<le> 63"
    unfolding is_cont_def by auto
  have c: "(b0 - 0xC0) * 64 + (b1 - 0x80) = (x + 2) * 64 + y" using x y by simp
  have yl: "y < 64" using y by simp
  have r: "0x80 \<le> (x + 2) * 64 + y" "(x + 2) * 64 + y < 0x800" using x y by simp_all
  show ?thesis
    unfolding c utf8_encode_def using r radix64_digits2 [OF yl, of "x + 2"] x y by simp
qed

lemma utf8_encode_three_byte_value:
  assumes "0xE0 \<le> b0" "b0 \<le> 0xEF" "second3 b0 b1" "is_cont b2"
  shows "utf8_encode ((b0 - 0xE0) * 4096 + (b1 - 0x80) * 64 + (b2 - 0x80)) = [b0, b1, b2]"
proof -
  from assms(3) have b1: "0x80 \<le> b1" "b1 \<le> 0xBF" "b0 = 0xE0 \<longrightarrow> 0xA0 \<le> b1"
    unfolding second3_def is_cont_def by (auto split: if_splits)
  from offset_within [OF assms(1,2)] obtain x where x: "b0 = 0xE0 + x" "x \<le> 15" by auto
  from offset_within [OF b1(1,2)] obtain y where y: "b1 = 0x80 + y" "y \<le> 63" by auto
  from assms(4) offset_within [of "0x80" b2 "0xBF"] obtain z where z: "b2 = 0x80 + z" "z \<le> 63"
    unfolding is_cont_def by auto
  from b1(3) x y have s: "x = 0 \<longrightarrow> 32 \<le> y" by simp
  have c: "(b0 - 0xE0) * 4096 + (b1 - 0x80) * 64 + (b2 - 0x80) = x * 4096 + y * 64 + z"
    using x y z by simp
  have l: "y < 64" "z < 64" using y z by simp_all
  have lo: "0x800 \<le> x * 4096 + y * 64 + z"
  proof (cases "x = 0")
    case True
    with s show ?thesis by simp
  next
    case False
    then have "1 \<le> x" by simp
    then show ?thesis by simp
  qed
  have hi: "x * 4096 + y * 64 + z < 0x10000" using x y z by simp
  show ?thesis
    unfolding c utf8_encode_def using lo hi radix64_digits3 [OF l, of x] x y z by simp
qed

lemma utf8_encode_four_byte_value:
  assumes "0xF0 \<le> b0" "b0 \<le> 0xF4" "second4 b0 b1" "is_cont b2" "is_cont b3"
  shows "utf8_encode ((b0 - 0xF0) * 262144 + (b1 - 0x80) * 4096 + (b2 - 0x80) * 64 + (b3 - 0x80))
    = [b0, b1, b2, b3]"
proof -
  from assms(3) have b1: "0x80 \<le> b1" "b1 \<le> 0xBF" "b0 = 0xF0 \<longrightarrow> 0x90 \<le> b1"
    unfolding second4_def is_cont_def by (auto split: if_splits)
  from offset_within [OF assms(1,2)] obtain x where x: "b0 = 0xF0 + x" "x \<le> 4" by auto
  from offset_within [OF b1(1,2)] obtain y where y: "b1 = 0x80 + y" "y \<le> 63" by auto
  from assms(4) offset_within [of "0x80" b2 "0xBF"] obtain z where z: "b2 = 0x80 + z" "z \<le> 63"
    unfolding is_cont_def by auto
  from assms(5) offset_within [of "0x80" b3 "0xBF"] obtain w where w: "b3 = 0x80 + w" "w \<le> 63"
    unfolding is_cont_def by auto
  from b1(3) x y have s: "x = 0 \<longrightarrow> 16 \<le> y" by simp
  have c: "(b0 - 0xF0) * 262144 + (b1 - 0x80) * 4096 + (b2 - 0x80) * 64 + (b3 - 0x80)
      = x * 262144 + y * 4096 + z * 64 + w"
    using x y z w by simp
  have l: "y < 64" "z < 64" "w < 64" using y z w by simp_all
  have lo: "0x10000 \<le> x * 262144 + y * 4096 + z * 64 + w"
  proof (cases "x = 0")
    case True
    with s show ?thesis by simp
  next
    case False
    then have "1 \<le> x" by simp
    then show ?thesis by simp
  qed
  show ?thesis
    unfolding c utf8_encode_def using lo radix64_digits4 [OF l, of x] x y z w by simp
qed

lemma read_utf8_roundtrip:
  assumes "read_utf8 bs = (Some cp, n)"
  shows "utf8_encode cp = take n bs"
proof (cases bs)
  case Nil
  with assms show ?thesis by (simp add: read_utf8_def)
next
  case (Cons b0 r0)
  consider "b0 < 0x80" | "0xC2 \<le> b0" "b0 \<le> 0xDF" | "0xE0 \<le> b0" "b0 \<le> 0xEF"
    | "0xF0 \<le> b0" "b0 \<le> 0xF4"
    | "\<not> b0 < 0x80" "\<not> (0xC2 \<le> b0 \<and> b0 \<le> 0xDF)" "\<not> (0xE0 \<le> b0 \<and> b0 \<le> 0xEF)"
      "\<not> (0xF0 \<le> b0 \<and> b0 \<le> 0xF4)"
    by linarith
  then show ?thesis
  proof cases
    case 1
    with assms Cons show ?thesis by (auto simp: read_utf8_def utf8_encode_def)
  next
    case 2
    with assms Cons have "\<exists>b1 r. r0 = b1 # r \<and> is_cont b1 \<and> n = 2 \<and>
        cp = (b0 - 0xC0) * 64 + (b1 - 0x80)"
      by (auto simp: read_utf8_def split: list.splits if_splits)
    with 2 Cons show ?thesis by (auto simp: utf8_encode_two_byte_value)
  next
    case 3
    with assms Cons have "\<exists>b1 b2 r. r0 = b1 # b2 # r \<and> second3 b0 b1 \<and> is_cont b2 \<and> n = 3 \<and>
        cp = (b0 - 0xE0) * 4096 + (b1 - 0x80) * 64 + (b2 - 0x80)"
      by (auto simp: read_utf8_def split: list.splits if_splits)
    with 3 Cons show ?thesis by (auto simp: utf8_encode_three_byte_value)
  next
    case 4
    with assms Cons have "\<exists>b1 b2 b3 r. r0 = b1 # b2 # b3 # r \<and> second4 b0 b1 \<and> is_cont b2 \<and>
        is_cont b3 \<and> n = 4 \<and>
        cp = (b0 - 0xF0) * 262144 + (b1 - 0x80) * 4096 + (b2 - 0x80) * 64 + (b3 - 0x80)"
      by (auto simp: read_utf8_def split: list.splits if_splits)
    with 4 Cons show ?thesis by (auto simp: utf8_encode_four_byte_value)
  next
    case 5
    with assms Cons show ?thesis by (simp add: read_utf8_def)
  qed
qed

lemma decode_utf8_copies:
  "list_all (\<lambda>r. r \<noteq> None) (decode_utf8 bs) \<Longrightarrow>
   concat (map (utf8_encode \<circ> repaired) (decode_utf8 bs)) = bs"
proof (induction bs rule: decode_utf8.induct)
  case (1 bs)
  show ?case
  proof (cases "bs = []")
    case True
    then show ?thesis by (simp add: decode_utf8.simps)
  next
    case False
    let ?r = "read_utf8 bs"
    have u: "decode_utf8 bs = fst ?r # decode_utf8 (drop (snd ?r) bs)"
      using False by (subst decode_utf8.simps) simp
    from 1(2) u obtain cp where cp: "fst ?r = Some cp"
      and rest: "list_all (\<lambda>r. r \<noteq> None) (decode_utf8 (drop (snd ?r) bs))" by auto
    then have "?r = (Some cp, snd ?r)" by (metis prod.collapse)
    from read_utf8_roundtrip [OF this] have h: "utf8_encode cp = take (snd ?r) bs" .
    from 1(1) [OF False rest]
    have t: "concat (map (utf8_encode \<circ> repaired) (decode_utf8 (drop (snd ?r) bs)))
        = drop (snd ?r) bs" .
    show ?thesis by (subst u) (simp add: cp repaired_def h t)
  qed
qed

lemma is_cont_byte: "is_cont b \<Longrightarrow> b < 256"
  by (simp add: is_cont_def)

lemma utf8_encode_bytes:
  assumes "is_scalar cp"
  shows "list_all (\<lambda>b. b < 256) (utf8_encode cp)"
proof -
  consider "cp < 0x80" | "0x80 \<le> cp" "cp < 0x800" | "0x800 \<le> cp" "cp < 0x10000" | "0x10000 \<le> cp"
    by linarith
  then show ?thesis
  proof cases
    case 1
    then show ?thesis by (simp add: utf8_encode_def)
  next
    case 2
    from utf8_encode_two_bytes [OF 2] 2 show ?thesis by (simp add: utf8_encode_def is_cont_byte)
  next
    case 3
    from utf8_encode_three_bytes [OF 3 assms] have "is_cont (0x80 + (cp div 64) mod 64)"
      by (auto simp: second3_def is_cont_def split: if_splits)
    with utf8_encode_three_bytes [OF 3 assms] 3 show ?thesis by (simp add: utf8_encode_def is_cont_byte)
  next
    case 4
    from utf8_encode_four_bytes [OF 4 assms] have "is_cont (0x80 + (cp div 4096) mod 64)"
      by (auto simp: second4_def is_cont_def split: if_splits)
    with utf8_encode_four_bytes [OF 4 assms] 4 show ?thesis by (simp add: utf8_encode_def is_cont_byte)
  qed
qed

lemma of_char_char_of_bytes:
  "list_all (\<lambda>b. b < 256) bs \<Longrightarrow> map of_char (map char_of bs :: string) = (bs :: nat list)"
  by (induction bs) simp_all

lemma of_char_utf8_chars: "is_scalar cp \<Longrightarrow> map of_char (utf8_chars cp) = utf8_encode cp"
  unfolding utf8_chars_def by (rule of_char_char_of_bytes) (rule utf8_encode_bytes)

lemma replacement_scalar: "is_scalar kUnicodeReplacementCharacter"
  by (simp add: is_scalar_def kUnicodeReplacementCharacter_def)

lemma repaired_utf8_scalar: "r \<in> set (decode_utf8 bs) \<Longrightarrow> is_scalar (repaired r)"
  by (cases r) (simp_all add: repaired_def replacement_scalar decode_utf8_scalar)

lemma repaired_utf16_scalar: "r \<in> set (decode_utf16 us) \<Longrightarrow> is_scalar (repaired r)"
  by (cases r) (simp_all add: repaired_def replacement_scalar decode_utf16_scalar)

lemma valid_utf8_text:
  "\<forall>r \<in> set items. is_scalar (repaired r) \<Longrightarrow> valid_utf8 (map of_char (repair_to_utf8 items))"
proof (induction items)
  case Nil
  then show ?case by (simp add: repair_to_utf8_def)
next
  case (Cons r items)
  then have s: "is_scalar (repaired r)" by simp
  from Cons have "valid_utf8 (map of_char (repair_to_utf8 items))" by simp
  moreover have "repair_to_utf8 (r # items) = utf8_chars (repaired r) @ repair_to_utf8 items"
    by (simp add: repair_to_utf8_def)
  ultimately show ?case
    by (simp add: of_char_utf8_chars [OF s] valid_utf8_encode [OF s] del: valid_utf8.simps)
qed

lemma appended_append: "appended output (output @ text) = text"
  by (simp add: appended_def)

lemma CanonicalizeRef_valid:
  "valid_utf8 (map of_char (appended output (fst (snd (CanonicalizeRef spec ref_c output)))))"
proof (cases "is_present ref_c")
  case False
  then show ?thesis by (simp add: CanonicalizeRef_def appended_def)
next
  case True
  have "valid_utf8 (map of_char (repair_to_utf8
      (decode_utf8 (map of_char (component_chars spec ref_c)))))"
    by (rule valid_utf8_text) (simp add: repaired_utf8_scalar)
  with True show ?thesis
    by (simp add: CanonicalizeRef_def Let_def appended_append del: valid_utf8.simps)
       (simp)
qed

lemma CanonicalizeRefW_valid:
  "valid_utf8 (map of_char (appended output (fst (snd (CanonicalizeRefW wspec ref_c output)))))"
proof (cases "is_present ref_c")
  case False
  then show ?thesis by (simp add: CanonicalizeRefW_def appended_def)
next
  case True
  have "valid_utf8 (map of_char (repair_to_utf8 (decode_utf16 (component_chars wspec ref_c))))"
    by (rule valid_utf8_text) (simp add: repaired_utf16_scalar)
  with True show ?thesis
    by (simp add: CanonicalizeRefW_def Let_def appended_append del: valid_utf8.simps)
       (simp)
qed

lemma utf8_chars_text_copies:
  assumes "list_all (\<lambda>r. r \<noteq> None) (decode_utf8 (map of_char s))"
  shows "repair_to_utf8 (decode_utf8 (map of_char s)) = s"
proof -
  have "repair_to_utf8 items = map char_of (concat (map (utf8_encode \<circ> repaired) items))"
    for items
    by (induction items) (simp_all add: utf8_chars_def repair_to_utf8_def)
  then have "repair_to_utf8 (decode_utf8 (map of_char s)) = map char_of (map of_char s :: nat list)"
    using decode_utf8_copies [OF assms] by simp
  also have "\<dots> = s" by (simp add: comp_def)
  finally show ?thesis .
qed

lemma CanonicalizeRef_copies:
  assumes "is_present ref_c" "fst (CanonicalizeRef spec ref_c output)"
  shows "appended output (fst (snd (CanonicalizeRef spec ref_c output))) = CHR ''#'' # component_chars spec ref_c"
proof -
  from assms have "list_all (\<lambda>r. r \<noteq> None) (decode_utf8 (map of_char (component_chars spec ref_c)))"
    by (simp add: CanonicalizeRef_def Let_def)
  from utf8_chars_text_copies [OF this] assms(1) show ?thesis
    by (simp add: CanonicalizeRef_def Let_def appended_append)
qed

lemma read_utf8_copies:
  assumes "read_utf8 (map of_char cs) = (Some cp, n)"
  shows "utf8_chars cp = take n cs"
proof -
  from read_utf8_roundtrip [OF assms] have "utf8_chars cp = map char_of (take n (map of_char cs :: nat list))"
    by (simp add: utf8_chars_def)
  also have "\<dots> = take n cs" by (simp add: take_map comp_def)
  finally show ?thesis .
qed

lemma decode_utf8_e_acute: "decode_utf8 [0xC3, 0xA9] = [Some 233]"
  by (simp add: decode_utf8.simps read_utf8_def is_cont_def)

lemma utf8_chars_e_acute: "utf8_chars 233 = [CHR 0xC3, CHR 0xA9]"
  by (simp add: utf8_chars_def utf8_encode_def char_of_def bit_iff_odd)

lemma utf8_chars_replacement: "utf8_chars kUnicodeReplacementCharacter = [CHR 0xEF, CHR 0xBF, CHR 0xBD]"
  by (simp add: utf8_chars_def utf8_encode_def kUnicodeReplacementCharacter_def char_of_def
      bit_iff_odd)

lemma CanonicalizeRef_e_acute: "CanonicalizeRef [CHR ''p'', CHR ''#'', CHR 0xC3, CHR 0xA9] \<lparr>comp_begin = 2, comp_len = 2\<rparr> ''p''
   = (True, [CHR ''p'', CHR ''#'', CHR 0xC3, CHR 0xA9], \<lparr>comp_begin = 2, comp_len = 2\<rparr>)"
  by (simp add: CanonicalizeRef_def is_present_def component_chars_def decode_utf8_e_acute repair_to_utf8_def
      repaired_def utf8_chars_e_acute)

lemma CanonicalizeRef_stray_byte: "CanonicalizeRef [CHR 0xFF] \<lparr>comp_begin = 0, comp_len = 1\<rparr> []
   = (False, [CHR ''#'', CHR 0xEF, CHR 0xBF, CHR 0xBD], \<lparr>comp_begin = 1, comp_len = 3\<rparr>)"
  by (simp add: CanonicalizeRef_def is_present_def component_chars_def decode_utf8.simps
      read_utf8_def repair_to_utf8_def repaired_def utf8_chars_replacement)

lemma CanonicalizeRefW_lone_surrogate: "CanonicalizeRefW [0xD800, 0x41] \<lparr>comp_begin = 0, comp_len = 2\<rparr> []
   = (False, [CHR ''#'', CHR 0xEF, CHR 0xBF, CHR 0xBD, CHR ''A''], \<lparr>comp_begin = 1, comp_len = 4\<rparr>)"
  by (simp add: CanonicalizeRefW_def is_present_def component_chars_def decode_utf16.simps
      read_utf16_def repair_to_utf8_def repaired_def utf8_chars_replacement)
     (simp add: utf8_chars_def utf8_encode_def char_of_def bit_iff_odd)

lemma query_code_points_scalar: "list_all is_scalar (query_code_points spec query_c)"
  by (simp add: query_code_points_def list_all_iff repaired_utf8_scalar)

lemma query_code_pointsW_scalar: "list_all is_scalar (query_code_pointsW wspec query_c)"
  by (simp add: query_code_pointsW_def list_all_iff repaired_utf16_scalar)

lemma valid_utf8_ascii: "list_all (\<lambda>cp. cp < 0x80) cps \<Longrightarrow> valid_utf8 cps"
  by (induction cps) simp_all

lemma valid_utf8_concat:
  "list_all is_scalar cps \<Longrightarrow> valid_utf8 (map of_char (concat (map utf8_chars cps)))"
proof (induction cps)
  case Nil
  then show ?case by simp
next
  case (Cons cp cps)
  then have s: "is_scalar cp" by simp
  from Cons have "valid_utf8 (map of_char (concat (map utf8_chars cps)))" by simp
  then show ?case
    by (simp add: of_char_utf8_chars [OF s] valid_utf8_encode [OF s] del: valid_utf8.simps)
qed

lemma convert_query_null_valid:
  assumes "list_all is_scalar cps"
  shows "valid_utf8 (map of_char (convert_query None cps))"
proof (cases "list_all (\<lambda>cp. cp < 0x80) cps")
  case True
  then have "list_all (\<lambda>b. b < 256) cps" by (induction cps) simp_all
  then have "map of_char (map char_of cps :: string) = cps" by (rule of_char_char_of_bytes)
  with True show ?thesis by (simp add: convert_query_def valid_utf8_ascii del: valid_utf8.simps)
next
  case False
  with valid_utf8_concat [OF assms] show ?thesis by (simp add: convert_query_def)
qed

lemma ReplacePathURL_javascript:
  "ReplacePathURL ''javascript:alert(1)'' javascript_parsed URLComponentSource_null []
     = (True, ''javascript:alert(1)'', javascript_parsed)"
  by (simp add: ReplacePathURL_def SetupOverrideComponents_def DoCanonicalizePathURL_def
      URLComponentSource_null_def javascript_parsed_def override_source_def
      override_component_def source_string_def CanonicalizeScheme_def component_chars_def
      is_present_def is_letter_def is_scheme_char_def to_lower_def absent_component_def)

lemma repair_to_utf8_transcodes: "repair_to_utf8 rs = transcode_or_replace rs"
proof -
  have "utf8_chars (repaired r) =
      (case r of Some cp \<Rightarrow> utf8_chars cp | None \<Rightarrow> [CHR 0xEF, CHR 0xBF, CHR 0xBD])" for r
    by (cases r) (simp_all add: repaired_def utf8_chars_replacement)
  then show ?thesis by (simp add: repair_to_utf8_def transcode_or_replace_def)
qed

lemma repair_to_utf8_copies_rest:
  "repair_to_utf8 (decode_utf8 (map of_char cs)) = replace_invalid_copy_rest cs"
proof (induction cs rule: replace_invalid_copy_rest.induct)
  case (1 cs)
  show ?case
  proof (cases "cs = []")
    case True
    then show ?thesis
      by (simp add: decode_utf8.simps replace_invalid_copy_rest.simps repair_to_utf8_def)
  next
    case False
    let ?r = "read_utf8 (map of_char cs)"
    have u: "decode_utf8 (map of_char cs) = fst ?r # decode_utf8 (map of_char (drop (snd ?r) cs))"
      using False by (subst decode_utf8.simps) (simp add: drop_map)
    have v: "replace_invalid_copy_rest cs =
        (case fst ?r of Some cp \<Rightarrow> take (snd ?r) cs | None \<Rightarrow> [CHR 0xEF, CHR 0xBF, CHR 0xBD])
        @ replace_invalid_copy_rest (drop (snd ?r) cs)"
      using False by (subst replace_invalid_copy_rest.simps) simp
    have h: "utf8_chars (repaired (fst ?r)) =
        (case fst ?r of Some cp \<Rightarrow> take (snd ?r) cs | None \<Rightarrow> [CHR 0xEF, CHR 0xBF, CHR 0xBD])"
    proof (cases "fst ?r")
      case None
      then show ?thesis by (simp add: repaired_def utf8_chars_replacement)
    next
      case (Some cp)
      then have "?r = (Some cp, snd ?r)" by (metis prod.collapse)
      from read_utf8_copies [OF this] Some show ?thesis by (simp add: repaired_def)
    qed
    have "repair_to_utf8 (decode_utf8 (map of_char cs)) =
        utf8_chars (repaired (fst ?r)) @ repair_to_utf8 (decode_utf8 (map of_char (drop (snd ?r) cs)))"
      by (subst u) (simp add: repair_to_utf8_def)
    also have "\<dots> = replace_invalid_copy_rest cs"
      by (subst v) (simp only: h 1 [OF False])
    finally show ?thesis .
  qed
qed

lemma replace_stray_byte:
  "replace_invalid_copy_rest [CHR ''a'', CHR 0xFF, CHR 0xC3, CHR 0xA9]
     = [CHR ''a'', CHR 0xEF, CHR 0xBF, CHR 0xBD, CHR 0xC3, CHR 0xA9]"
  by (simp add: replace_invalid_copy_rest.simps read_utf8_def is_cont_def)

lemma decode_stray_byte:
  "decode_utf8 [97, 255, 195, 169] = [Some 97, None, Some 233]"
  by (simp add: decode_utf8.simps read_utf8_def is_cont_def)

lemma decode_lone_surrogate:
  "decode_utf16 [0xD800, 0x41, 0xD83D, 0xDE00] = [None, Some 65, Some 128512]"
  by (simp add: decode_utf16.simps read_utf16_def)

lemma transcode_lone_surrogate:
  "transcode_or_replace [None, Some 65, Some 128512]
     = [CHR 0xEF, CHR 0xBF, CHR 0xBD, CHR ''A'', CHR 0xF0, CHR 0x9F, CHR 0x98, CHR 0x80]"
  by (simp add: transcode_or_replace_def utf8_chars_def utf8_encode_def char_of_def bit_iff_odd)

section \<open>The claims\<close>

text \<open>
  C1. Claim: every output-buffer operation terminates, for every buffer state, capacity
  zero included, and every requested amount of at least one character. The source does not
  do so at capacity zero, the state the constructor of \<^verbatim>\<open>CanonOutputT\<close> sets up: the loop of
  \<^verbatim>\<open>Grow\<close> doubles zero for ever, so that neither \<^verbatim>\<open>push_back\<close> nor \<^verbatim>\<open>Append\<close> of one
  character returns, whatever the derived class does in \<^verbatim>\<open>Resize\<close>. (For a capacity of at
  least one the operations do return: \<open>Grow_returns\<close>, \<open>push_back_returns\<close>,
  \<open>Append_returns\<close>.)
\<close>

theorem push_back_and_Append_never_return_at_capacity_zero:
  "push_back resize ch (CanonOutputT_ctor :: 'a CanonOutputT) = None \<and>
   Append resize [ch] 1 (CanonOutputT_ctor :: 'a CanonOutputT) = None"
  by (simp add: push_back_def Append_def Grow_def CanonOutputT_ctor_def Grow_loop_zero
      INT_MAX_def wrap32_def)

text \<open>
  C2. Claim: for every buffer state and every requested amount the growth doubles the
  capacity until the request fits, fails only at the cap of \<open>2 ^ 30\<close> and succeeds below
  it. At capacity zero, which is below the cap, a request for one more character gets
  neither answer: the loop never leaves \<open>new_len = 0\<close>. (From a capacity of at least one
  the loop does what the claim says: \<open>Grow_loop_returns\<close>, \<open>Grow_loop_doubles\<close>,
  \<open>Grow_loop_result\<close>, \<open>Grow_loop_succeeds_below_cap\<close>.)
\<close>

theorem Grow_gives_no_answer_at_capacity_zero:
  "capacity (CanonOutputT_ctor :: 'a CanonOutputT) = 0 \<and>
   Grow_loop 0 1 0 = None \<and>
   Grow resize 1 (CanonOutputT_ctor :: 'a CanonOutputT) = None"
  by (simp add: Grow_def CanonOutputT_ctor_def Grow_loop_zero INT_MAX_def capacity_def)

text \<open>
  C3. Claim: \<^verbatim>\<open>set_length\<close> accepts only a new length that is at most the current length
  and is never used to increase the declared length. The source checks nothing and its
  comment gives the second use: after an external function has written beyond the end,
  \<^verbatim>\<open>set_length\<close> declares the new, larger length, which must not exceed the capacity. The
  counterexample is that use: a buffer of capacity 8 and length 2 into which three more
  characters have been written from outside; \<^verbatim>\<open>set_length(5)\<close> yields a buffer that
  satisfies the invariant and is longer than before.
\<close>

theorem set_length_increases_length_counterexample:
  "buffer_inv externally_written \<and> buffer_inv (set_length 5 externally_written) \<and>
   length_of externally_written = 2 \<and> length_of (set_length 5 externally_written) = 5 \<and>
   \<not> length_of (set_length 5 externally_written) \<le> length_of externally_written"
  by (simp add: buffer_inv_def externally_written_def set_length_def length_of_def INT_MAX_def)

text \<open>
  C3, amended. \<^verbatim>\<open>set_length\<close> takes any new length: it sets the length to that value and
  leaves the capacity and every stored character as they were; for a new length between
  zero and the capacity, which may be larger than the current length, the invariant is
  kept.
\<close>

theorem set_length_sets_length_only:
  "cur_len (set_length new_len s) = new_len \<and>
   buffer (set_length new_len s) = buffer s \<and>
   capacity (set_length new_len s) = capacity s \<and>
   at (set_length new_len s) i = at s i \<and>
   (buffer_inv s \<and> 0 \<le> new_len \<and> new_len \<le> capacity s \<longrightarrow> buffer_inv (set_length new_len s))"
  by (simp add: set_length_inv capacity_def) (simp add: set_length_def at_def)

theorem set_length_sets_length_only_witness:
  "buffer_inv externally_written \<and> (0::int) \<le> 5 \<and> 5 \<le> capacity externally_written \<and>
   buffer_inv (set_length 5 externally_written) \<and>
   cur_len (set_length 5 externally_written) = 5 \<and>
   at (set_length 5 externally_written) 4 = Some CHR ''e''"
proof -
  have h: "buffer_inv externally_written \<and> (0::int) \<le> 5 \<and> 5 \<le> capacity externally_written"
    by (simp add: buffer_inv_def externally_written_def capacity_def INT_MAX_def)
  have a: "at externally_written 4 = Some CHR ''e''"
    by (simp add: at_def externally_written_def)
  from set_length_sets_length_only [of 5 externally_written 4] h a show ?thesis by simp
qed

text \<open>
  C4. The text that \<^verbatim>\<open>CanonicalizeRef\<close> appends is valid UTF-8 for every input, in the
  8-bit version and in the wide one, whatever the bytes or the surrogates of the input;
  the output is the old output followed by that text; where the 8-bit version reports
  success, the text is \<^verbatim>\<open>#\<close> followed by the fragment as it was; a well-formed sequence
  of the input is written as the same bytes, and an ill-formed position as the three bytes
  of U+FFFD. For a fragment that is present, the whole result is fixed: the 8-bit version
  returns the output followed by \<^verbatim>\<open>#\<close> and the fragment with every well-formed sequence
  copied and every ill-formed position replaced by U+FFFD; the wide version returns the
  output followed by \<^verbatim>\<open>#\<close> and the UTF-8 form of every code point read, with U+FFFD for
  every ill-formed position; either returns true exactly when no position was ill-formed,
  and the component it reports is the text after the \<^verbatim>\<open>#\<close>. For an absent fragment
  nothing is written.
\<close>

theorem CanonicalizeRef_appends_valid_utf8:
  "valid_utf8 (map of_char (appended output (fst (snd (CanonicalizeRef spec ref_c output))))) \<and>
   valid_utf8 (map of_char (appended output (fst (snd (CanonicalizeRefW wspec ref_c output))))) \<and>
   fst (snd (CanonicalizeRef spec ref_c output))
     = output @ appended output (fst (snd (CanonicalizeRef spec ref_c output))) \<and>
   fst (snd (CanonicalizeRefW wspec ref_c output))
     = output @ appended output (fst (snd (CanonicalizeRefW wspec ref_c output))) \<and>
   (is_present ref_c \<and> fst (CanonicalizeRef spec ref_c output) \<longrightarrow>
      appended output (fst (snd (CanonicalizeRef spec ref_c output)))
        = CHR ''#'' # component_chars spec ref_c) \<and>
   (read_utf8 (map of_char cs) = (Some cp, n) \<longrightarrow> utf8_chars (repaired (Some cp)) = take n cs) \<and>
   utf8_chars (repaired None) = [CHR 0xEF, CHR 0xBF, CHR 0xBD] \<and>
   (is_present ref_c \<longrightarrow>
      CanonicalizeRef spec ref_c output =
        (list_all (\<lambda>r. r \<noteq> None) (decode_utf8 (map of_char (component_chars spec ref_c))),
         output @ CHR ''#'' # replace_invalid_copy_rest (component_chars spec ref_c),
         \<lparr>comp_begin = int (length output) + 1,
          comp_len = int (length (replace_invalid_copy_rest (component_chars spec ref_c)))\<rparr>)) \<and>
   (is_present ref_c \<longrightarrow>
      replace_invalid_copy_rest (component_chars spec ref_c)
        = transcode_or_replace (decode_utf8 (map of_char (component_chars spec ref_c)))) \<and>
   (is_present ref_c \<longrightarrow>
      CanonicalizeRefW wspec ref_c output =
        (list_all (\<lambda>r. r \<noteq> None) (decode_utf16 (component_chars wspec ref_c)),
         output @ CHR ''#'' # transcode_or_replace (decode_utf16 (component_chars wspec ref_c)),
         \<lparr>comp_begin = int (length output) + 1,
          comp_len = int (length (transcode_or_replace
                        (decode_utf16 (component_chars wspec ref_c))))\<rparr>)) \<and>
   (\<not> is_present ref_c \<longrightarrow>
      CanonicalizeRef spec ref_c output = (True, output, absent_component) \<and>
      CanonicalizeRefW wspec ref_c output = (True, output, absent_component))"
proof -
  have a: "fst (snd (CanonicalizeRef spec ref_c output))
     = output @ appended output (fst (snd (CanonicalizeRef spec ref_c output)))"
    by (simp add: CanonicalizeRef_def Let_def appended_def)
  have b: "fst (snd (CanonicalizeRefW wspec ref_c output))
     = output @ appended output (fst (snd (CanonicalizeRefW wspec ref_c output)))"
    by (simp add: CanonicalizeRefW_def Let_def appended_def)
  have c: "is_present ref_c \<and> fst (CanonicalizeRef spec ref_c output) \<longrightarrow>
      appended output (fst (snd (CanonicalizeRef spec ref_c output)))
        = CHR ''#'' # component_chars spec ref_c"
    using CanonicalizeRef_copies by blast
  have d: "read_utf8 (map of_char cs) = (Some cp, n) \<longrightarrow>
      utf8_chars (repaired (Some cp)) = take n cs"
    by (simp add: repaired_def read_utf8_copies)
  have e: "utf8_chars (repaired None) = [CHR 0xEF, CHR 0xBF, CHR 0xBD]"
    by (simp add: repaired_def utf8_chars_replacement)
  have f: "is_present ref_c \<longrightarrow>
      CanonicalizeRef spec ref_c output =
        (list_all (\<lambda>r. r \<noteq> None) (decode_utf8 (map of_char (component_chars spec ref_c))),
         output @ CHR ''#'' # replace_invalid_copy_rest (component_chars spec ref_c),
         \<lparr>comp_begin = int (length output) + 1,
          comp_len = int (length (replace_invalid_copy_rest (component_chars spec ref_c)))\<rparr>)"
    by (simp add: CanonicalizeRef_def Let_def repair_to_utf8_copies_rest)
  have g: "is_present ref_c \<longrightarrow>
      replace_invalid_copy_rest (component_chars spec ref_c)
        = transcode_or_replace (decode_utf8 (map of_char (component_chars spec ref_c)))"
    by (simp add: repair_to_utf8_copies_rest [symmetric] repair_to_utf8_transcodes)
  have h: "is_present ref_c \<longrightarrow>
      CanonicalizeRefW wspec ref_c output =
        (list_all (\<lambda>r. r \<noteq> None) (decode_utf16 (component_chars wspec ref_c)),
         output @ CHR ''#'' # transcode_or_replace (decode_utf16 (component_chars wspec ref_c)),
         \<lparr>comp_begin = int (length output) + 1,
          comp_len = int (length (transcode_or_replace
                        (decode_utf16 (component_chars wspec ref_c))))\<rparr>)"
    by (simp add: CanonicalizeRefW_def Let_def repair_to_utf8_transcodes)
  have i: "\<not> is_present ref_c \<longrightarrow>
      CanonicalizeRef spec ref_c output = (True, output, absent_component) \<and>
      CanonicalizeRefW wspec ref_c output = (True, output, absent_component)"
    by (simp add: CanonicalizeRef_def CanonicalizeRefW_def)
  show ?thesis
    by (intro conjI CanonicalizeRef_valid CanonicalizeRefW_valid a b c d e f g h i)
qed

theorem CanonicalizeRef_appends_valid_utf8_witness:
  "is_present \<lparr>comp_begin = 2, comp_len = 2\<rparr> \<and>
   fst (CanonicalizeRef [CHR ''p'', CHR ''#'', CHR 0xC3, CHR 0xA9] \<lparr>comp_begin = 2, comp_len = 2\<rparr> ''p'') \<and>
   appended ''p'' (fst (snd (CanonicalizeRef [CHR ''p'', CHR ''#'', CHR 0xC3, CHR 0xA9]
       \<lparr>comp_begin = 2, comp_len = 2\<rparr> ''p''))) = [CHR ''#'', CHR 0xC3, CHR 0xA9] \<and>
   valid_utf8 (map of_char [CHR ''#'', CHR 0xC3, CHR 0xA9]) \<and>
   read_utf8 (map of_char [CHR 0xC3, CHR 0xA9]) = (Some 233, 2) \<and>
   utf8_chars (repaired (Some 233)) = [CHR 0xC3, CHR 0xA9] \<and>
   CanonicalizeRef [CHR 0xFF] \<lparr>comp_begin = 0, comp_len = 1\<rparr> []
     = (False, [CHR ''#'', CHR 0xEF, CHR 0xBF, CHR 0xBD], \<lparr>comp_begin = 1, comp_len = 3\<rparr>) \<and>
   valid_utf8 (map of_char [CHR ''#'', CHR 0xEF, CHR 0xBF, CHR 0xBD]) \<and>
   CanonicalizeRefW [0xD800, 0x41] \<lparr>comp_begin = 0, comp_len = 2\<rparr> []
     = (False, [CHR ''#'', CHR 0xEF, CHR 0xBF, CHR 0xBD, CHR ''A''], \<lparr>comp_begin = 1, comp_len = 4\<rparr>) \<and>
   valid_utf8 (map of_char [CHR ''#'', CHR 0xEF, CHR 0xBF, CHR 0xBD, CHR ''A'']) \<and>
   is_present \<lparr>comp_begin = 0, comp_len = 4\<rparr> \<and>
   CanonicalizeRef [CHR ''a'', CHR 0xFF, CHR 0xC3, CHR 0xA9] \<lparr>comp_begin = 0, comp_len = 4\<rparr> ''p''
     = (False, [CHR ''p'', CHR ''#'', CHR ''a'', CHR 0xEF, CHR 0xBF, CHR 0xBD, CHR 0xC3, CHR 0xA9],
        \<lparr>comp_begin = 2, comp_len = 6\<rparr>) \<and>
   CanonicalizeRefW [0xD800, 0x41, 0xD83D, 0xDE00] \<lparr>comp_begin = 0, comp_len = 4\<rparr> ''p''
     = (False, [CHR ''p'', CHR ''#'', CHR 0xEF, CHR 0xBF, CHR 0xBD, CHR ''A'',
                CHR 0xF0, CHR 0x9F, CHR 0x98, CHR 0x80],
        \<lparr>comp_begin = 2, comp_len = 8\<rparr>) \<and>
   \<not> is_present absent_component \<and>
   CanonicalizeRef [CHR 0xFF] absent_component ''p'' = (True, ''p'', absent_component) \<and>
   CanonicalizeRefW [0xD800, 0x41] absent_component ''p'' = (True, ''p'', absent_component)"
proof -
  have p: "is_present \<lparr>comp_begin = 2, comp_len = 2\<rparr>" by (simp add: is_present_def)
  have s: "component_chars [CHR ''p'', CHR ''#'', CHR 0xC3, CHR 0xA9] \<lparr>comp_begin = 2, comp_len = 2\<rparr>
      = [CHR 0xC3, CHR 0xA9]"
    by (simp add: component_chars_def is_present_def)
  from CanonicalizeRef_appends_valid_utf8 [of "''p''" "[CHR ''p'', CHR ''#'', CHR 0xC3, CHR 0xA9]"
      "\<lparr>comp_begin = 2, comp_len = 2\<rparr>" "[]", THEN conjunct1]
    CanonicalizeRef_appends_valid_utf8 [of "''p''" "[CHR ''p'', CHR ''#'', CHR 0xC3, CHR 0xA9]"
      "\<lparr>comp_begin = 2, comp_len = 2\<rparr>" "[]", THEN conjunct2, THEN conjunct2, THEN conjunct2,
      THEN conjunct2, THEN conjunct1]
    p CanonicalizeRef_e_acute s
  have 1: "fst (CanonicalizeRef [CHR ''p'', CHR ''#'', CHR 0xC3, CHR 0xA9] \<lparr>comp_begin = 2, comp_len = 2\<rparr> ''p'') \<and>
   appended ''p'' (fst (snd (CanonicalizeRef [CHR ''p'', CHR ''#'', CHR 0xC3, CHR 0xA9]
       \<lparr>comp_begin = 2, comp_len = 2\<rparr> ''p''))) = [CHR ''#'', CHR 0xC3, CHR 0xA9] \<and>
   valid_utf8 (map of_char [CHR ''#'', CHR 0xC3, CHR 0xA9])"
    by (simp add: appended_def del: valid_utf8.simps)
  from CanonicalizeRef_appends_valid_utf8 [of "[]" "[CHR 0xFF]" "\<lparr>comp_begin = 0, comp_len = 1\<rparr>"
      "[0xD800, 0x41]", THEN conjunct1] CanonicalizeRef_stray_byte
  have 2: "valid_utf8 (map of_char [CHR ''#'', CHR 0xEF, CHR 0xBF, CHR 0xBD])"
    by (simp add: appended_def del: valid_utf8.simps)
  from CanonicalizeRef_appends_valid_utf8 [of "[]" "[CHR 0xFF]" "\<lparr>comp_begin = 0, comp_len = 2\<rparr>"
      "[0xD800, 0x41]", THEN conjunct2, THEN conjunct1] CanonicalizeRefW_lone_surrogate
  have 3: "valid_utf8 (map of_char [CHR ''#'', CHR 0xEF, CHR 0xBF, CHR 0xBD, CHR ''A''])"
    by (simp add: appended_def del: valid_utf8.simps)
  have r: "read_utf8 (map of_char [CHR 0xC3, CHR 0xA9]) = (Some 233, 2)"
    by (simp add: read_utf8_def is_cont_def)
  from CanonicalizeRef_appends_valid_utf8 [of "[]" "[]" "\<lparr>comp_begin = 0, comp_len = 0\<rparr>" "[]"
      "[CHR 0xC3, CHR 0xA9]" 233 2, THEN conjunct2, THEN conjunct2, THEN conjunct2, THEN conjunct2,
      THEN conjunct2, THEN conjunct1, THEN mp, OF r]
  have 4: "utf8_chars (repaired (Some 233)) = [CHR 0xC3, CHR 0xA9]" by simp
  have q: "is_present \<lparr>comp_begin = 0, comp_len = 4\<rparr>" by (simp add: is_present_def)
  have c8: "component_chars [CHR ''a'', CHR 0xFF, CHR 0xC3, CHR 0xA9] \<lparr>comp_begin = 0, comp_len = 4\<rparr>
      = [CHR ''a'', CHR 0xFF, CHR 0xC3, CHR 0xA9]"
    by (simp add: component_chars_def is_present_def)
  have c16: "component_chars [0xD800, 0x41, 0xD83D, 0xDE00 :: 16 word] \<lparr>comp_begin = 0, comp_len = 4\<rparr>
      = [0xD800, 0x41, 0xD83D, 0xDE00]"
    by (simp add: component_chars_def is_present_def)
  from CanonicalizeRef_appends_valid_utf8 [of "''p''" "[CHR ''a'', CHR 0xFF, CHR 0xC3, CHR 0xA9]"
      "\<lparr>comp_begin = 0, comp_len = 4\<rparr>" "[]", THEN conjunct2, THEN conjunct2, THEN conjunct2,
      THEN conjunct2, THEN conjunct2, THEN conjunct2, THEN conjunct2,
      THEN conjunct1, THEN mp, OF q]
  have 5: "CanonicalizeRef [CHR ''a'', CHR 0xFF, CHR 0xC3, CHR 0xA9] \<lparr>comp_begin = 0, comp_len = 4\<rparr> ''p''
     = (False, [CHR ''p'', CHR ''#'', CHR ''a'', CHR 0xEF, CHR 0xBF, CHR 0xBD, CHR 0xC3, CHR 0xA9],
        \<lparr>comp_begin = 2, comp_len = 6\<rparr>)"
    by (simp add: c8 replace_stray_byte decode_stray_byte)
  from CanonicalizeRef_appends_valid_utf8 [of "''p''" "[]" "\<lparr>comp_begin = 0, comp_len = 4\<rparr>"
      "[0xD800, 0x41, 0xD83D, 0xDE00]", THEN conjunct2, THEN conjunct2, THEN conjunct2,
      THEN conjunct2, THEN conjunct2, THEN conjunct2, THEN conjunct2,
      THEN conjunct2, THEN conjunct2, THEN conjunct1, THEN mp, OF q]
  have 6: "CanonicalizeRefW [0xD800, 0x41, 0xD83D, 0xDE00] \<lparr>comp_begin = 0, comp_len = 4\<rparr> ''p''
     = (False, [CHR ''p'', CHR ''#'', CHR 0xEF, CHR 0xBF, CHR 0xBD, CHR ''A'',
                CHR 0xF0, CHR 0x9F, CHR 0x98, CHR 0x80],
        \<lparr>comp_begin = 2, comp_len = 8\<rparr>)"
    by (simp add: c16 decode_lone_surrogate transcode_lone_surrogate)
  have n: "\<not> is_present absent_component" by (simp add: is_present_def absent_component_def)
  note 7 = CanonicalizeRef_appends_valid_utf8 [of "''p''" "[CHR 0xFF]" absent_component
      "[0xD800, 0x41]", THEN conjunct2, THEN conjunct2, THEN conjunct2,
      THEN conjunct2, THEN conjunct2, THEN conjunct2, THEN conjunct2,
      THEN conjunct2, THEN conjunct2, THEN conjunct2, THEN mp, OF n]
  show ?thesis
    by (intro conjI p 1 [THEN conjunct1] 1 [THEN conjunct2, THEN conjunct1]
        1 [THEN conjunct2, THEN conjunct2] CanonicalizeRef_stray_byte 2
        CanonicalizeRefW_lone_surrogate 3 r 4 q 5 6 n 7 [THEN conjunct1] 7 [THEN conjunct2])
qed

text \<open>
  C5. \<^verbatim>\<open>CanonicalizeQuery\<close> has no failure result and gives an output for every input, in
  both versions: the old output followed by some text, which for a query that is present
  is \<^verbatim>\<open>?\<close> and the escaped conversion of the repaired code points, and which is empty
  for an absent query. The repaired code points are those read from the input with U+FFFD
  in place of each ill-formed position; they are Unicode scalar values throughout, and
  with a \<^verbatim>\<open>NULL\<close> converter their conversion is valid UTF-8.
\<close>

theorem CanonicalizeQuery_never_fails:
  "(\<exists>text. fst (CanonicalizeQuery query_escape spec query_c converter output) = output @ text) \<and>
   (\<exists>text. fst (CanonicalizeQueryW query_escape wspec query_c converter output) = output @ text) \<and>
   (is_present query_c \<longrightarrow>
      CanonicalizeQuery query_escape spec query_c converter output =
        (output @ CHR ''?'' #
           escape_query query_escape (convert_query converter (query_code_points spec query_c)),
         \<lparr>comp_begin = int (length output) + 1,
          comp_len = int (length (escape_query query_escape
                        (convert_query converter (query_code_points spec query_c))))\<rparr>)) \<and>
   (is_present query_c \<longrightarrow>
      CanonicalizeQueryW query_escape wspec query_c converter output =
        (output @ CHR ''?'' #
           escape_query query_escape (convert_query converter (query_code_pointsW wspec query_c)),
         \<lparr>comp_begin = int (length output) + 1,
          comp_len = int (length (escape_query query_escape
                        (convert_query converter (query_code_pointsW wspec query_c))))\<rparr>)) \<and>
   (\<not> is_present query_c \<longrightarrow>
      CanonicalizeQuery query_escape spec query_c converter output = (output, absent_component) \<and>
      CanonicalizeQueryW query_escape wspec query_c converter output = (output, absent_component)) \<and>
   list_all is_scalar (query_code_points spec query_c) \<and>
   list_all is_scalar (query_code_pointsW wspec query_c) \<and>
   query_code_points spec query_c =
     map (\<lambda>r. case r of Some cp \<Rightarrow> cp | None \<Rightarrow> 0xFFFD)
       (decode_utf8 (map of_char (component_chars spec query_c))) \<and>
   query_code_pointsW wspec query_c =
     map (\<lambda>r. case r of Some cp \<Rightarrow> cp | None \<Rightarrow> 0xFFFD)
       (decode_utf16 (component_chars wspec query_c)) \<and>
   valid_utf8 (map of_char (convert_query None (query_code_points spec query_c))) \<and>
   valid_utf8 (map of_char (convert_query None (query_code_pointsW wspec query_c)))"
proof -
  have r: "repaired = (\<lambda>r. case r of Some cp \<Rightarrow> cp | None \<Rightarrow> 0xFFFD)"
    by (rule ext) (simp add: repaired_def kUnicodeReplacementCharacter_def split: option.split)
  have 1: "\<exists>text. fst (CanonicalizeQuery query_escape spec query_c converter output) = output @ text"
    by (simp add: CanonicalizeQuery_def write_query_def Let_def)
  have 2: "\<exists>text. fst (CanonicalizeQueryW query_escape wspec query_c converter output) = output @ text"
    by (simp add: CanonicalizeQueryW_def write_query_def Let_def)
  have 3: "query_code_points spec query_c =
     map (\<lambda>r. case r of Some cp \<Rightarrow> cp | None \<Rightarrow> 0xFFFD)
       (decode_utf8 (map of_char (component_chars spec query_c)))"
    unfolding query_code_points_def r ..
  have 4: "query_code_pointsW wspec query_c =
     map (\<lambda>r. case r of Some cp \<Rightarrow> cp | None \<Rightarrow> 0xFFFD)
       (decode_utf16 (component_chars wspec query_c))"
    unfolding query_code_pointsW_def r ..
  show ?thesis
    apply (intro conjI 1 2 3 4 query_code_points_scalar query_code_pointsW_scalar
        convert_query_null_valid)
      apply (simp_all add: CanonicalizeQuery_def CanonicalizeQueryW_def write_query_def Let_def)
    done
qed

theorem CanonicalizeQuery_never_fails_witness:
  "is_present \<lparr>comp_begin = 0, comp_len = 3\<rparr> \<and>
   CanonicalizeQuery example_escape [CHR ''q'', CHR ''='', CHR 0xFF] \<lparr>comp_begin = 0, comp_len = 3\<rparr>
     None ''u'' = (''u?q=%EF%BF%BD'', \<lparr>comp_begin = 2, comp_len = 11\<rparr>) \<and>
   \<not> is_present absent_component \<and>
   CanonicalizeQuery example_escape [CHR ''q'', CHR ''='', CHR 0xFF] absent_component None ''u''
     = (''u'', absent_component)"
proof -
  have p: "is_present \<lparr>comp_begin = 0, comp_len = 3\<rparr>" "\<not> is_present absent_component"
    by (simp_all add: is_present_def absent_component_def)
  have c: "query_code_points [CHR ''q'', CHR ''='', CHR 0xFF] \<lparr>comp_begin = 0, comp_len = 3\<rparr>
      = [113, 61, 0xFFFD]"
    by (simp add: query_code_points_def component_chars_def is_present_def decode_utf8.simps
        read_utf8_def repaired_def kUnicodeReplacementCharacter_def)
  have v: "convert_query None [113, 61, 0xFFFD] = [CHR ''q'', CHR ''='', CHR 0xEF, CHR 0xBF, CHR 0xBD]"
    by (simp add: convert_query_def utf8_chars_def utf8_encode_def char_of_def bit_iff_odd)
  have e: "escape_query example_escape [CHR ''q'', CHR ''='', CHR 0xEF, CHR 0xBF, CHR 0xBD]
      = ''q=%EF%BF%BD''"
    by (simp add: escape_query_def example_escape_def percent_escape_def hex_digit_def)
  from CanonicalizeQuery_never_fails [of example_escape "[CHR ''q'', CHR ''='', CHR 0xFF]"
      "\<lparr>comp_begin = 0, comp_len = 3\<rparr>" None "''u''"]
    CanonicalizeQuery_never_fails [of example_escape "[CHR ''q'', CHR ''='', CHR 0xFF]"
      absent_component None "''u''"] p c v e
  show ?thesis by simp
qed


text \<open>
  C6. If the base has no non-empty path, or is not a file URL and has no non-empty host,
  \<^verbatim>\<open>ResolveRelativeURL\<close> returns false, the text it appends to the output is the base URL
  as it was, and the parsed result is that of the base.
\<close>

theorem ResolveRelativeURL_returns_base_on_unusable_base:
  assumes "\<not> is_nonempty (path base_parsed) \<or>
           (\<not> base_is_file \<and> \<not> is_nonempty (host base_parsed))"
  shows "ResolveRelativeURL resolve base_url base_parsed base_is_file relative_url
           relative_component output = (False, output @ base_url, base_parsed) \<and>
         \<not> fst (ResolveRelativeURL resolve base_url base_parsed base_is_file relative_url
           relative_component output) \<and>
         appended output (fst (snd (ResolveRelativeURL resolve base_url base_parsed base_is_file
           relative_url relative_component output))) = base_url \<and>
         snd (snd (ResolveRelativeURL resolve base_url base_parsed base_is_file
           relative_url relative_component output)) = base_parsed"
  using assms by (auto simp: ResolveRelativeURL_def appended_def)

theorem ResolveRelativeURL_returns_base_on_unusable_base_witness:
  "\<not> is_nonempty (path no_path_base) \<and>
   ResolveRelativeURL keep_output ''http://host'' no_path_base False ''x''
     \<lparr>comp_begin = 0, comp_len = 1\<rparr> []
     = (False, ''http://host'', no_path_base) \<and>
   is_nonempty (path no_host_base) \<and> \<not> is_nonempty (host no_host_base) \<and>
   ResolveRelativeURL keep_output ''data:/x'' no_host_base False ''y''
     \<lparr>comp_begin = 0, comp_len = 1\<rparr> []
     = (False, ''data:/x'', no_host_base)"
proof -
  have a: "\<not> is_nonempty (path no_path_base)"
    by (simp add: no_path_base_def is_nonempty_def is_present_def absent_component_def)
  have b: "is_nonempty (path no_host_base)" "\<not> is_nonempty (host no_host_base)"
    by (simp_all add: no_host_base_def is_nonempty_def is_present_def absent_component_def)
  have c: "\<not> False \<and> \<not> is_nonempty (host no_host_base)" using b by simp
  from ResolveRelativeURL_returns_base_on_unusable_base [OF disjI1 [OF a],
      of keep_output "''http://host''" False "''x''" "\<lparr>comp_begin = 0, comp_len = 1\<rparr>" "[]"]
    ResolveRelativeURL_returns_base_on_unusable_base [OF disjI2 [OF c],
      of keep_output "''data:/x''" "''y''" "\<lparr>comp_begin = 0, comp_len = 1\<rparr>" "[]"]
    a b show ?thesis by simp
qed

text \<open>
  C7. \<^verbatim>\<open>ReplacePathURL\<close> applies the overrides of scheme and path only: setting the
  overrides of username, password, host, port, query and fragment to anything leaves the
  result as it is, and two replacement sets that agree on scheme and path give the same
  result.
\<close>

theorem ReplacePathURL_ignores_other_overrides:
  "ReplacePathURL base base_parsed
     (replacements\<lparr>src_username := u, src_password := pw, src_host := h, src_port := po,
                    src_query := q, src_ref := f\<rparr>) output
   = ReplacePathURL base base_parsed replacements output \<and>
   (src_scheme replacements' = src_scheme replacements \<and>
    src_path replacements' = src_path replacements \<longrightarrow>
    ReplacePathURL base base_parsed replacements' output
      = ReplacePathURL base base_parsed replacements output)"
  by (simp add: ReplacePathURL_def SetupOverrideComponents_def DoCanonicalizePathURL_def)

theorem ReplacePathURL_ignores_other_overrides_witness:
  "src_scheme (URLComponentSource_null\<lparr>src_host := Some ''example.com''\<rparr>)
     = src_scheme URLComponentSource_null \<and>
   src_path (URLComponentSource_null\<lparr>src_host := Some ''example.com''\<rparr>)
     = src_path URLComponentSource_null \<and>
   ReplacePathURL ''javascript:alert(1)'' javascript_parsed
     (URLComponentSource_null\<lparr>src_host := Some ''example.com''\<rparr>) []
     = (True, ''javascript:alert(1)'', javascript_parsed)"
proof -
  have h: "src_scheme (URLComponentSource_null\<lparr>src_host := Some ''example.com''\<rparr>)
     = src_scheme URLComponentSource_null \<and>
   src_path (URLComponentSource_null\<lparr>src_host := Some ''example.com''\<rparr>)
     = src_path URLComponentSource_null" by simp
  from ReplacePathURL_ignores_other_overrides [THEN conjunct2, THEN mp, OF h,
      of "''javascript:alert(1)''" javascript_parsed "[]"]
    ReplacePathURL_javascript h
  show ?thesis by simp
qed


text \<open>
  C8. Claim: the invariant \<open>0 \<le> length \<le> capacity\<close> is kept by every buffer operation,
  by \<^verbatim>\<open>Append\<close> with no condition and by \<^verbatim>\<open>set_length\<close> for a new length that is at most
  the current one. The source takes the count of \<^verbatim>\<open>Append\<close> and the new length of
  \<^verbatim>\<open>set_length\<close> as an \<^verbatim>\<open>int\<close> and checks neither: with \<^verbatim>\<open>str_len = -3\<close> on a full buffer of
  two characters \<^verbatim>\<open>Append\<close> needs no growth, copies nothing and adds \<^verbatim>\<open>-3\<close> to the length,
  which is then \<^verbatim>\<open>-1\<close>; \<^verbatim>\<open>set_length(-1)\<close>, which is at most the current length, does the
  same.
\<close>

theorem Append_negative_length_counterexample:
  "buffer_inv two_chars \<and>
   resize_contract (Resize :: int \<Rightarrow> char CanonOutputT \<Rightarrow> char CanonOutputT) \<and>
   Append Resize ''zzz'' (- 3) two_chars
     = Some \<lparr>buffer = [Some CHR ''a'', Some CHR ''b''], buffer_len = 2, cur_len = - 1\<rparr> \<and>
   \<not> buffer_inv \<lparr>buffer = [Some CHR ''a'', Some CHR ''b''], buffer_len = 2, cur_len = - 1\<rparr> \<and>
   - 1 \<le> cur_len two_chars \<and> \<not> buffer_inv (set_length (- 1) two_chars)"
proof -
  have w: "wrap32 (- 1) = - 1" by (simp add: wrap32_def)
  have l: "Append_loop ''zzz'' (- 3) 0 two_chars = two_chars"
    by (subst Append_loop.simps) simp
  have a: "Append Resize ''zzz'' (- 3) two_chars
     = Some \<lparr>buffer = [Some CHR ''a'', Some CHR ''b''], buffer_len = 2, cur_len = - 1\<rparr>"
    by (simp add: Append_def Let_def l) (simp add: two_chars_def w)
  have b: "\<not> buffer_inv \<lparr>buffer = [Some CHR ''a'', Some CHR ''b''], buffer_len = 2, cur_len = - 1\<rparr>"
    by (simp add: buffer_inv_def)
  have c: "- 1 \<le> cur_len two_chars" by (simp add: two_chars_def)
  have d: "\<not> buffer_inv (set_length (- 1) two_chars)"
    by (simp add: buffer_inv_def set_length_def)
  show ?thesis by (intro conjI two_chars_inv Resize_meets_contract a b c d)
qed

text \<open>
  C8, amended. The invariant \<open>0 \<le> length \<le> capacity\<close> holds after each constructor and
  is kept by every operation that returns: \<^verbatim>\<open>push_back\<close>; \<^verbatim>\<open>Append\<close> of a string of
  \<open>str_len \<ge> 0\<close> characters whose end \<open>cur_len + str_len\<close> fits an \<^verbatim>\<open>int\<close>; \<^verbatim>\<open>Grow\<close>
  by at least one character; each of them for any \<^verbatim>\<open>Resize\<close> that meets its contract;
  and \<^verbatim>\<open>set_length\<close> to a length between zero and the current one. From a capacity of
  at least one the three growing operations do return.
\<close>

theorem buffer_inv_preserved:
  assumes "buffer_inv s" and "resize_contract resize"
  shows "(push_back resize ch s = Some s1 \<longrightarrow> buffer_inv s1) \<and>
    (0 \<le> str_len \<and> cur_len s + str_len \<le> INT_MAX \<and> Append resize str str_len s = Some s2
       \<longrightarrow> buffer_inv s2) \<and>
    (1 \<le> m \<and> m \<le> INT_MAX \<and> Grow resize m s = Some (ok, s3) \<longrightarrow> buffer_inv s3) \<and>
    (0 \<le> new_len \<and> new_len \<le> cur_len s \<longrightarrow> buffer_inv (set_length new_len s)) \<and>
    (1 \<le> capacity s \<longrightarrow>
       push_back resize ch s \<noteq> None \<and> Append resize str str_len s \<noteq> None \<and>
       Grow resize m s \<noteq> None) \<and>
    buffer_inv (CanonOutputT_ctor :: 'a CanonOutputT) \<and>
    (0 \<le> fixed_capacity \<and> fixed_capacity \<le> INT_MAX \<longrightarrow>
       buffer_inv (RawCanonOutputT_ctor fixed_capacity :: 'a CanonOutputT))"
proof -
  have a: "push_back resize ch s = Some s1 \<longrightarrow> buffer_inv s1"
    by (rule impI) (rule push_back_inv [OF assms])
  have b: "0 \<le> str_len \<and> cur_len s + str_len \<le> INT_MAX \<and>
      Append resize str str_len s = Some s2 \<longrightarrow> buffer_inv s2"
    by (rule impI, elim conjE) (rule Append_inv [OF assms])
  have c: "1 \<le> m \<and> m \<le> INT_MAX \<and> Grow resize m s = Some (ok, s3) \<longrightarrow> buffer_inv s3"
    by (rule impI, elim conjE) (rule Grow_inv [OF assms])
  have d: "0 \<le> new_len \<and> new_len \<le> cur_len s \<longrightarrow> buffer_inv (set_length new_len s)"
    using assms(1) by (simp add: buffer_inv_def set_length_def)
  have e: "1 \<le> capacity s \<longrightarrow>
       push_back resize ch s \<noteq> None \<and> Append resize str str_len s \<noteq> None \<and>
       Grow resize m s \<noteq> None"
  proof
    assume "1 \<le> capacity s"
    then have p: "1 \<le> buffer_len s" by (simp add: capacity_def)
    from push_back_returns [OF p, of resize ch] Append_returns [OF p, of resize str str_len]
      Grow_returns [OF p, of resize m]
    show "push_back resize ch s \<noteq> None \<and> Append resize str str_len s \<noteq> None \<and>
       Grow resize m s \<noteq> None"
      by (elim exE) simp
  qed
  have f: "0 \<le> fixed_capacity \<and> fixed_capacity \<le> INT_MAX \<longrightarrow>
       buffer_inv (RawCanonOutputT_ctor fixed_capacity :: 'a CanonOutputT)"
    by (simp add: Raw_ctor_inv)
  show ?thesis by (intro conjI a b c d e f ctor_inv)
qed

theorem buffer_inv_preserved_witness:
  "buffer_inv two_chars \<and> resize_contract (Resize :: int \<Rightarrow> char CanonOutputT \<Rightarrow> char CanonOutputT) \<and>
   push_back Resize CHR ''c'' two_chars =
     Some \<lparr>buffer = [Some CHR ''a'', Some CHR ''b'', Some CHR ''c'', None], buffer_len = 4, cur_len = 3\<rparr> \<and>
   buffer_inv \<lparr>buffer = [Some CHR ''a'', Some CHR ''b'', Some CHR ''c'', None], buffer_len = 4, cur_len = 3\<rparr> \<and>
   (0::int) \<le> 2 \<and> cur_len two_chars + 2 \<le> INT_MAX \<and>
   Append Resize ''cd'' 2 two_chars =
     Some \<lparr>buffer = [Some CHR ''a'', Some CHR ''b'', Some CHR ''c'', Some CHR ''d''], buffer_len = 4, cur_len = 4\<rparr> \<and>
   buffer_inv \<lparr>buffer = [Some CHR ''a'', Some CHR ''b'', Some CHR ''c'', Some CHR ''d''], buffer_len = 4, cur_len = 4\<rparr> \<and>
   (1::int) \<le> 1 \<and> 1 \<le> INT_MAX \<and>
   Grow Resize 1 two_chars =
     Some (True, \<lparr>buffer = [Some CHR ''a'', Some CHR ''b'', None, None], buffer_len = 4, cur_len = 2\<rparr>) \<and>
   buffer_inv \<lparr>buffer = [Some CHR ''a'', Some CHR ''b'', None, None], buffer_len = 4, cur_len = 2\<rparr> \<and>
   (0::int) \<le> 1 \<and> 1 \<le> cur_len two_chars \<and> buffer_inv (set_length 1 two_chars) \<and>
   1 \<le> capacity two_chars \<and>
   (0::int) \<le> 1024 \<and> 1024 \<le> INT_MAX \<and>
   buffer_inv (RawCanonOutputT_ctor 1024 :: char CanonOutputT)"
proof -
  have r: "(0::int) \<le> 2 \<and> cur_len two_chars + 2 \<le> INT_MAX" "(1::int) \<le> 1 \<and> 1 \<le> INT_MAX"
    "(0::int) \<le> 1 \<and> 1 \<le> cur_len two_chars" "1 \<le> capacity two_chars"
    by (simp_all add: two_chars_def INT_MAX_def capacity_def)
  have k: "(0::int) \<le> 1024 \<and> 1024 \<le> INT_MAX" by (simp add: INT_MAX_def)
  note t = buffer_inv_preserved [OF two_chars_inv Resize_meets_contract,
      where ch = "CHR ''c''" and str = "''cd''" and str_len = 2 and m = 1 and new_len = 1
        and ok = True and fixed_capacity = 1024]
  have 1: "buffer_inv
      \<lparr>buffer = [Some CHR ''a'', Some CHR ''b'', Some CHR ''c'', None], buffer_len = 4, cur_len = 3\<rparr>"
    by (rule t [THEN conjunct1, THEN mp, OF push_back_two_chars])
  have 2: "buffer_inv
      \<lparr>buffer = [Some CHR ''a'', Some CHR ''b'', Some CHR ''c'', Some CHR ''d''], buffer_len = 4, cur_len = 4\<rparr>"
    by (rule t [THEN conjunct2, THEN conjunct1, THEN mp, OF conjI [OF r(1) [THEN conjunct1]
          conjI [OF r(1) [THEN conjunct2] Append_two_chars]]])
  have 3: "buffer_inv
      \<lparr>buffer = [Some CHR ''a'', Some CHR ''b'', None, None], buffer_len = 4, cur_len = 2\<rparr>"
    by (rule t [THEN conjunct2, THEN conjunct2, THEN conjunct1, THEN mp,
          OF conjI [OF r(2) [THEN conjunct1] conjI [OF r(2) [THEN conjunct2] Grow_two_chars]]])
  have 4: "buffer_inv (set_length 1 two_chars)"
    by (rule t [THEN conjunct2, THEN conjunct2, THEN conjunct2, THEN conjunct1, THEN mp, OF r(3)])
  have 5: "buffer_inv (RawCanonOutputT_ctor 1024 :: char CanonOutputT)"
    by (rule t [THEN conjunct2, THEN conjunct2, THEN conjunct2, THEN conjunct2, THEN conjunct2,
          THEN conjunct2, THEN mp, OF k])
  show ?thesis
    by (intro conjI two_chars_inv Resize_meets_contract push_back_two_chars Append_two_chars
        Grow_two_chars 1 2 3 4 5 r(1) [THEN conjunct1] r(1) [THEN conjunct2] r(2) [THEN conjunct1]
        r(2) [THEN conjunct2] r(3) [THEN conjunct1] r(3) [THEN conjunct2] r(4)
        k [THEN conjunct1] k [THEN conjunct2])
qed

text \<open>
  C9. When \<^verbatim>\<open>Grow\<close> returns false it leaves the buffer as it was, and so do a
  \<^verbatim>\<open>push_back\<close> and an \<^verbatim>\<open>Append\<close> that needed it: length, capacity and every
  character are unchanged, and nothing of the appended text is written.
\<close>

theorem failed_growth_drops_the_append:
  "(Grow resize m s = Some (False, s') \<longrightarrow> s' = s) \<and>
   (\<not> cur_len s < buffer_len s \<and> Grow resize 1 s = Some (False, s') \<longrightarrow>
      push_back resize ch s = Some s) \<and>
   (wrap32 (cur_len s + str_len) > buffer_len s \<and>
    Grow resize (wrap32 (wrap32 (cur_len s + str_len) - buffer_len s)) s = Some (False, s') \<longrightarrow>
      Append resize str str_len s = Some s)"
  by (auto simp: push_back_def Append_def Let_def dest: Grow_False_unchanged)

theorem failed_growth_drops_the_append_witness:
  "Grow Resize 1 at_the_cap = Some (False, at_the_cap) \<and>
   \<not> cur_len at_the_cap < buffer_len at_the_cap \<and>
   push_back Resize CHR ''x'' at_the_cap = Some at_the_cap \<and>
   wrap32 (cur_len at_the_cap + 2) > buffer_len at_the_cap \<and>
   Grow Resize (wrap32 (wrap32 (cur_len at_the_cap + 2) - buffer_len at_the_cap)) at_the_cap
     = Some (False, at_the_cap) \<and>
   Append Resize ''xy'' 2 at_the_cap = Some at_the_cap \<and>
   buffer_inv at_the_cap"
proof -
  have f: "\<not> cur_len at_the_cap < buffer_len at_the_cap"
    "wrap32 (cur_len at_the_cap + 2) > buffer_len at_the_cap"
    by (simp_all add: at_the_cap_def wrap32_def)
  have i: "buffer_inv at_the_cap" by (simp add: buffer_inv_def at_the_cap_def INT_MAX_def)
  from failed_growth_drops_the_append [of Resize 1 at_the_cap at_the_cap "CHR ''x''" 2 "''xy''"]
    Grow_at_the_cap f i
  show ?thesis by simp
qed

text \<open>
  C10. For a buffer that satisfies the invariant and a size larger than its capacity,
  \<^verbatim>\<open>RawCanonOutputT::Resize\<close> gives a buffer of that capacity, with the length unchanged and
  the first \<^verbatim>\<open>length()\<close> characters equal to those of the old buffer.
\<close>

theorem Resize_keeps_written_characters:
  assumes "buffer_inv s" and "capacity s < sz"
  shows "(0 \<le> i \<and> i < length_of s \<longrightarrow> at (Resize sz s) i = at s i) \<and>
    take (nat (length_of s)) (buffer (Resize sz s)) = take (nat (length_of s)) (buffer s) \<and>
    capacity (Resize sz s) = sz \<and> int (length (buffer (Resize sz s))) = sz \<and>
    length_of (Resize sz s) = length_of s"
proof -
  from assms have sz: "buffer_len s < sz" by (simp add: capacity_def)
  note f = Resize_fields [OF assms(1) sz]
  from assms(1) have r: "cur_len s \<le> int (length (buffer s))" by (simp add: buffer_inv_def)
  from assms(1) sz f(2) have r': "cur_len s \<le> int (length (buffer (Resize sz s)))"
    by (simp add: buffer_inv_def)
  have "0 \<le> i \<and> i < length_of s \<longrightarrow> at (Resize sz s) i = at s i"
    using at_of_equal_prefix [of i "cur_len s" s "Resize sz s"] r r' f(4) by (simp add: length_of_def)
  with f show ?thesis by (simp add: capacity_def length_of_def)
qed

theorem Resize_keeps_written_characters_witness:
  "buffer_inv two_chars \<and> capacity two_chars < 5 \<and> (0::int) \<le> 1 \<and> 1 < length_of two_chars \<and>
   at (Resize 5 two_chars) 1 = Some CHR ''b'' \<and>
   capacity (Resize 5 two_chars) = 5 \<and> length_of (Resize 5 two_chars) = 2 \<and>
   Resize 5 two_chars =
     \<lparr>buffer = [Some CHR ''a'', Some CHR ''b'', None, None, None], buffer_len = 5, cur_len = 2\<rparr>"
proof -
  have c: "capacity two_chars < 5" "1 < length_of two_chars" "length_of two_chars = 2"
    "at two_chars 1 = Some CHR ''b''"
    by (simp_all add: two_chars_def capacity_def length_of_def at_def)
  have e: "Resize 5 two_chars =
     \<lparr>buffer = [Some CHR ''a'', Some CHR ''b'', None, None, None], buffer_len = 5, cur_len = 2\<rparr>"
    by (simp add: Resize_def two_chars_def memcpy_def eval_nat_numeral)
  from Resize_keeps_written_characters [OF two_chars_inv c(1), of 1] c two_chars_inv e
  show ?thesis by simp
qed

end
